theory Spec2Isabelle
  imports Complex_Main "HOL-Library.AList" "HOL-Library.Multiset"
begin

section \<open>Package search: data model\<close>

text \<open>
  Modelled from the spec: the type \<open>xdcc.IRCFile\<close> (the locator) is declared in package
  \<open>xdcc\<close>, which is not among the sources. The spec gives its fields as network address,
  channel, bot nickname and pack number, and says two locators are equal iff all fields are
  equal. Package \<open>search\<close> only uses it as the key of a Go map, so only this equality
  matters below.
\<close>

record IRCFile =
  Network :: string
  Channel :: string
  UserName :: string
  Pack :: int

text \<open>\<open>type XdccFileInfo struct { URL xdcc.IRCFile; Name string; Size int64; Slot int }\<close>\<close>

record XdccFileInfo =
  URL :: IRCFile
  Name :: string
  Size :: int
  Slot :: int

text \<open>
  A Go \<open>error\<close> value; \<open>None\<close> of \<open>error option\<close> is the nil error. The errors that
  occur are those of \<open>errors.New\<close> and the \<open>*strconv.NumError\<close> of \<open>strconv.ParseFloat\<close>
  (function name, input, and \<open>strconv.ErrSyntax\<close> or \<open>strconv.ErrRange\<close>).
\<close>

datatype strconv_err = ErrSyntax | ErrRange

datatype error = ErrorString string | NumError string string strconv_err

text \<open>
  \<open>type XdccSearchProvider interface { Search(keywords []string) ([]XdccFileInfo, error) }\<close>:
  a provider is what its \<open>Search\<close> method returns for the keywords, a pair of a result
  list and an error. A call that never returns is not a value of this type: it is
  expressed by the provider's absence from the schedule of \<open>Search\<close> below.
\<close>

type_synonym XdccSearchProvider = "string list \<Rightarrow> XdccFileInfo list \<times> error option"

record ProviderAggregator =
  providerList :: "XdccSearchProvider list"

definition MaxProviders :: nat where
  "MaxProviders = 100"

definition NewProviderAggregator :: "XdccSearchProvider list \<Rightarrow> ProviderAggregator" where
  "NewProviderAggregator providers = \<lparr>providerList = providers\<rparr>"

definition AddProvider :: "ProviderAggregator \<Rightarrow> XdccSearchProvider \<Rightarrow> ProviderAggregator" where
  "AddProvider registry provider = registry\<lparr>providerList := providerList registry @ [provider]\<rparr>"

definition MaxResults :: nat where
  "MaxResults = 1024"

section \<open>Go slices, maps and the runtime\<close>

text \<open>
  A slice is nil, or has elements and a capacity. \<open>empty_literal\<close> is the
  composite literal \<open>[]T{}\<close> and \<open>make_slice c\<close> is \<open>make([]T, 0, c)\<close>: both are
  empty and not nil.
\<close>

datatype 'a slice = NilSlice | Slice (elems_of: "'a list") (cap_of: nat)

fun elems :: "'a slice \<Rightarrow> 'a list" where
  "elems NilSlice = []"
| "elems (Slice xs c) = xs"

fun cap :: "'a slice \<Rightarrow> nat" where
  "cap NilSlice = 0"
| "cap (Slice xs c) = c"

definition len :: "'a slice \<Rightarrow> nat" where
  "len s = length (elems s)"

definition empty_literal :: "'a slice" where
  "empty_literal = Slice [] 0"

definition make_slice :: "nat \<Rightarrow> 'a slice" where
  "make_slice c = Slice [] c"

text \<open>
  What the language leaves to the runtime is a parameter of the model:
  \<^item> \<open>range_order\<close>: the order in which \<open>for ... range\<close> visits the entries of a map
    (unspecified in Go, and randomised);
  \<^item> \<open>sort_Slice\<close>: \<open>sort.Slice\<close> of the standard library, which sorts by the given
    \<open>less\<close> and is documented as not stable;
  \<^item> \<open>growslice\<close>: the capacity \<open>append\<close> allocates when the old capacity (first
    argument) is too small for the needed length (second argument).
\<close>

record go_runtime =
  range_order :: "(IRCFile \<times> XdccFileInfo) list \<Rightarrow> (IRCFile \<times> XdccFileInfo) list"
  sort_Slice :: "(XdccFileInfo \<Rightarrow> XdccFileInfo \<Rightarrow> bool) \<Rightarrow> XdccFileInfo list \<Rightarrow> XdccFileInfo list"
  growslice :: "nat \<Rightarrow> nat \<Rightarrow> nat"

definition strict_weak_order :: "('a \<Rightarrow> 'a \<Rightarrow> bool) \<Rightarrow> bool" where
  "strict_weak_order lt \<longleftrightarrow>
     (\<forall>a. \<not> lt a a) \<and>
     (\<forall>a b c. lt a b \<and> lt b c \<longrightarrow> lt a c) \<and>
     (\<forall>a b c. \<not> lt a b \<and> \<not> lt b c \<longrightarrow> \<not> lt a c)"

text \<open>
  The contract of the runtime: ranging over a map visits every entry once; \<open>sort.Slice\<close>
  permutes the slice, and for a \<open>less\<close> function that is a strict weak ordering (what the
  documentation of \<open>sort.Interface\<close> requires) no later element is less than an earlier
  one; \<open>append\<close> allocates at least what is needed.
\<close>

definition runtime_ok :: "go_runtime \<Rightarrow> bool" where
  "runtime_ok rt \<longleftrightarrow>
     (\<forall>m. mset (range_order rt m) = mset m) \<and>
     (\<forall>lt xs. mset (sort_Slice rt lt xs) = mset xs) \<and>
     (\<forall>lt xs. strict_weak_order lt \<longrightarrow>
        sorted_wrt (\<lambda>a b. \<not> lt b a) (sort_Slice rt lt xs)) \<and>
     (\<forall>c n. n \<le> growslice rt c n)"

text \<open>\<open>append(s, x)\<close>: in place while the capacity suffices, otherwise a larger array.\<close>

definition append_slice :: "go_runtime \<Rightarrow> 'a slice \<Rightarrow> 'a \<Rightarrow> 'a slice" where
  "append_slice rt s x =
     (if len s + 1 \<le> cap s then Slice (elems s @ [x]) (cap s)
      else Slice (elems s @ [x]) (growslice rt (cap s) (len s + 1)))"

text \<open>
  A Go map \<open>map[xdcc.IRCFile]XdccFileInfo\<close> is an association list with distinct keys;
  the assignment \<open>m[k] = v\<close> is \<^const>\<open>AList.update\<close>, which overwrites the entry of
  an existing key and adds one for a new key.
\<close>

type_synonym result_map = "(IRCFile \<times> XdccFileInfo) list"

section \<open>ProviderAggregator.Search\<close>

text \<open>
  The body of the goroutine started for provider \<open>p\<close>, as a transformer of the state the
  goroutines share: the map \<open>allResults\<close> and the contents of the buffered channel
  \<open>errChan\<close>. The loop over \<open>resList\<close> runs with the mutex held, so it is one step.
\<close>

definition provider_task ::
  "string list \<Rightarrow> XdccSearchProvider \<Rightarrow> result_map \<times> error list \<Rightarrow> result_map \<times> error list" where
  "provider_task keywords p st =
     (case st of (allResults, errChan) \<Rightarrow>
        (case p keywords of
           (resList, Some e) \<Rightarrow> (allResults, errChan @ [e])
         | (resList, None) \<Rightarrow>
             (fold (\<lambda>res m. AList.update (URL res) res m) resList allResults, errChan)))"

text \<open>
  The calls that start concurrent activity or wait, recorded in the order \<open>Search\<close> makes
  them: \<open>time.After(10 * time.Second)\<close>, one \<open>go\<close> statement per provider (by index),
  the \<open>go\<close> statement of the goroutine that waits for the wait group, and the
  \<open>select\<close> that blocks until \<open>doneChan\<close> is closed or the timer fires.
\<close>

datatype effect = TimeAfter nat | GoProvider nat | GoWaiter | Select

text \<open>
  \<open>Search\<close>. The schedule \<open>sched\<close> lists the indices of the providers whose goroutines
  have run to their end when the main goroutine reads the map, in the order in which
  they held the mutex. A provider that is not in the schedule has not returned by then
  (the \<open>select\<close> was left through the timer). The result is the pair the Go function
  returns, together with the effects.
\<close>

definition valid_sched :: "ProviderAggregator \<Rightarrow> nat list \<Rightarrow> bool" where
  "valid_sched registry sched \<longleftrightarrow>
     distinct sched \<and> list_all (\<lambda>i. i < length (providerList registry)) sched"

definition bySizeDesc :: "XdccFileInfo \<Rightarrow> XdccFileInfo \<Rightarrow> bool" where
  "bySizeDesc a b \<longleftrightarrow> Size a > Size b"

definition Search ::
  "go_runtime \<Rightarrow> nat list \<Rightarrow> ProviderAggregator \<Rightarrow> string list \<Rightarrow>
     (XdccFileInfo slice \<times> error option) \<times> effect list" where
  "Search rt sched registry keywords =
     (if length (providerList registry) = 0 then ((empty_literal, None), [])
      else
        let (allResults, errChan) =
              fold (\<lambda>i. provider_task keywords (providerList registry ! i)) sched ([], []);
            results = fold (\<lambda>(k, res) s. append_slice rt s res) (range_order rt allResults)
                        (make_slice MaxResults);
            results = Slice (sort_Slice rt bySizeDesc (elems results)) (cap results)
        in ((results, None),
            [TimeAfter 10] @ map GoProvider [0..<length (providerList registry)]
              @ [GoWaiter, Select]))"

text \<open>
  The records \<open>Search\<close> has merged when it reads the map: the result lists of the
  scheduled providers that returned a nil error, in the order of the schedule.
\<close>

definition merged_batches :: "nat list \<Rightarrow> ProviderAggregator \<Rightarrow> string list \<Rightarrow> XdccFileInfo list list" where
  "merged_batches sched registry keywords =
     map (\<lambda>i. case (providerList registry ! i) keywords of
                 (resList, None) \<Rightarrow> resList
               | (resList, Some e) \<Rightarrow> []) sched"

text \<open>The map \<open>allResults\<close> as \<open>Search\<close> finds it when it builds the result slice.\<close>

definition merge_map :: "nat list \<Rightarrow> ProviderAggregator \<Rightarrow> string list \<Rightarrow> result_map" where
  "merge_map sched registry keywords =
     fst (fold (\<lambda>i. provider_task keywords (providerList registry ! i)) sched ([], []))"

text \<open>
  Two runtimes that meet the contract. Both sort by insertion; \<open>runtime_fifo\<close> ranges
  over a map in the order of first insertion, \<open>runtime_lifo\<close> in the reverse order.
\<close>

fun insert_by :: "('a \<Rightarrow> 'a \<Rightarrow> bool) \<Rightarrow> 'a \<Rightarrow> 'a list \<Rightarrow> 'a list" where
  "insert_by lt x [] = [x]"
| "insert_by lt x (y # ys) = (if lt x y then x # y # ys else y # insert_by lt x ys)"

fun insertionSort :: "('a \<Rightarrow> 'a \<Rightarrow> bool) \<Rightarrow> 'a list \<Rightarrow> 'a list" where
  "insertionSort lt [] = []"
| "insertionSort lt (x # xs) = insert_by lt x (insertionSort lt xs)"

definition runtime_fifo :: go_runtime where
  "runtime_fifo = \<lparr>range_order = (\<lambda>m. m), sort_Slice = insertionSort,
                    growslice = (\<lambda>c n. max n (2 * c))\<rparr>"

definition runtime_lifo :: go_runtime where
  "runtime_lifo = \<lparr>range_order = rev, sort_Slice = insertionSort,
                    growslice = (\<lambda>c n. max n (2 * c))\<rparr>"

subsection \<open>Sample providers\<close>

definition loc :: "int \<Rightarrow> IRCFile" where
  "loc n = \<lparr>Network = ''irc.example.net'', Channel = ''#packs'', UserName = ''bot'', Pack = n\<rparr>"

definition rec_a :: XdccFileInfo where
  "rec_a = \<lparr>URL = loc 1, Name = ''a.iso'', Size = 700, Slot = 1\<rparr>"

definition rec_a2 :: XdccFileInfo where
  "rec_a2 = \<lparr>URL = loc 1, Name = ''a-again.iso'', Size = 500, Slot = 7\<rparr>"

definition rec_b :: XdccFileInfo where
  "rec_b = \<lparr>URL = loc 2, Name = ''b.iso'', Size = 300, Slot = 2\<rparr>"

definition rec_c :: XdccFileInfo where
  "rec_c = \<lparr>URL = loc 3, Name = ''c.iso'', Size = 300, Slot = 3\<rparr>"

definition rec_d :: XdccFileInfo where
  "rec_d = \<lparr>URL = loc 4, Name = ''d.iso'', Size = 900, Slot = 4\<rparr>"

definition prov_one :: XdccSearchProvider where
  "prov_one keywords = ([rec_a, rec_b], None)"

definition prov_two :: XdccSearchProvider where
  "prov_two keywords = ([rec_a2, rec_c], None)"

definition prov_failing :: XdccSearchProvider where
  "prov_failing keywords = ([rec_d], Some (ErrorString ''connection refused''))"

definition prov_bulk :: "nat \<Rightarrow> XdccSearchProvider" where
  "prov_bulk n keywords =
     (map (\<lambda>i. \<lparr>URL = loc (int i), Name = ''bulk'', Size = 0, Slot = 0\<rparr>) [0..<n], None)"

definition sample_registry :: ProviderAggregator where
  "sample_registry = AddProvider (NewProviderAggregator [prov_one, prov_two]) prov_failing"

section \<open>Floating-point values\<close>

text \<open>
  A \<open>float64\<close> of Go: a finite value is the rational number it denotes (the sign of a
  zero is not kept: no operation below depends on it), or an infinity, or NaN.
\<close>

datatype gofloat = Finite rat | PosInf | NegInf | NaN

text \<open>
  A binary format: the number of significand bits (with the leading one) and the exponents
  of the least and the greatest normal binade.
\<close>

record float_format =
  precision :: nat
  emin :: int
  emax :: int

definition float32 :: float_format where
  "float32 = \<lparr>precision = 24, emin = - 126, emax = 127\<rparr>"

definition float64 :: float_format where
  "float64 = \<lparr>precision = 53, emin = - 1022, emax = 1023\<rparr>"

fun bitlen :: "nat \<Rightarrow> nat" where
  "bitlen n = (if n = 0 then 0 else Suc (bitlen (n div 2)))"

declare bitlen.simps [simp del]

definition pow2 :: "int \<Rightarrow> rat" where
  "pow2 e = (if 0 \<le> e then 2 ^ nat e else 1 / 2 ^ nat (- e))"

text \<open>\<open>pow2_le e N D\<close>: \<open>2\<^sup>e \<le> N / D\<close>, in integers.\<close>

definition pow2_le :: "int \<Rightarrow> nat \<Rightarrow> nat \<Rightarrow> bool" where
  "pow2_le e N D \<longleftrightarrow> (if 0 \<le> e then D * 2 ^ nat e \<le> N else D \<le> N * 2 ^ nat (- e))"

text \<open>The binary exponent of \<open>N / D\<close> for positive \<open>N\<close> and \<open>D\<close>: the \<open>e\<close> with \<open>2\<^sup>e \<le> N / D < 2\<^sup>e\<^sup>+\<^sup>1\<close>.\<close>

definition ilog2 :: "nat \<Rightarrow> nat \<Rightarrow> int" where
  "ilog2 N D = (let k = int (bitlen N) - int (bitlen D) in if pow2_le k N D then k else k - 1)"

text \<open>The integer nearest to \<open>a / b\<close>, a tie going to the even one.\<close>

definition round_half_even :: "nat \<Rightarrow> nat \<Rightarrow> nat" where
  "round_half_even a b =
     (let q = a div b; r = a mod b
      in if 2 * r < b then q
         else if b < 2 * r then q + 1
         else if even q then q else q + 1)"

text \<open>
  IEEE 754 rounding to nearest, ties to even, of the non-negative rational \<open>N / D\<close> in a
  format: the significand is rounded at the unit in the last place of the binade of
  \<open>N / D\<close> (of the least binade for a subnormal), and a result beyond the greatest finite
  value is an overflow, \<open>None\<close>.
\<close>

definition round_to_format :: "float_format \<Rightarrow> nat \<Rightarrow> nat \<Rightarrow> rat option" where
  "round_to_format fmt N D =
     (if N = 0 then Some 0
      else
        let e = max (ilog2 N D) (emin fmt);
            u = e - (int (precision fmt) - 1);
            m = (if 0 \<le> u then round_half_even N (D * 2 ^ nat u)
                 else round_half_even (N * 2 ^ nat (- u)) D);
            v = of_nat m * pow2 u
        in if pow2 (emax fmt + 1) \<le> v then None else Some v)"

text \<open>
  What the rounding is measured against: the numbers of a format are \<open>\<plusminus> m \<sqdot> 2\<^sup>u\<close> with a
  significand \<open>m\<close> below \<open>2\<^sup>p\<close> and \<open>u\<close> between the exponents of the units in the last
  place of the least and the greatest binade; \<open>ulp_exp\<close> is that exponent for the binade
  of \<open>N / D\<close>.
\<close>

definition representable :: "float_format \<Rightarrow> rat \<Rightarrow> bool" where
  "representable fmt q \<longleftrightarrow>
     (\<exists>m u. \<bar>q\<bar> = of_nat m * pow2 u \<and> m < 2 ^ precision fmt \<and>
        emin fmt - (int (precision fmt) - 1) \<le> u \<and> u \<le> emax fmt - (int (precision fmt) - 1))"

definition ulp_exp :: "float_format \<Rightarrow> nat \<Rightarrow> nat \<Rightarrow> int" where
  "ulp_exp fmt N D = max (ilog2 N D) (emin fmt) - (int (precision fmt) - 1)"

section \<open>strconv.ParseFloat\<close>

text \<open>
  \<open>strconv.ParseFloat\<close> belongs to the Go standard library. Its model follows the library:
  the syntax is what the scanner \<open>readFloat\<close> and the functions \<open>special\<close> and
  \<open>underscoreOK\<close> of \<open>strconv/atof.go\<close> accept, and the value is what the documentation
  promises, the floating-point number nearest to the number written, rounded by IEEE 754
  unbiased rounding, infinite with \<open>ErrRange\<close> beyond the largest finite value. The
  library reads the digits into buffers of bounded size (19 digits in a \<open>uint64\<close>, 800
  in the slow path) and still rounds correctly; the model keeps the exact number. It
  agrees with the library on every input of at most 800 significant digits.
\<close>

text \<open>
  \<open>func lower(c byte) byte { return c | ('x' - 'X') }\<close>. The result is the byte as a
  number, to be compared with the number of a character.
\<close>

definition lower :: "char \<Rightarrow> nat" where
  "lower c = or (of_char c) 32"

definition is_digit :: "char \<Rightarrow> bool" where
  "is_digit c \<longleftrightarrow> (of_char CHR ''0'' :: nat) \<le> of_char c \<and> (of_char c :: nat) \<le> of_char CHR ''9''"

definition digit_val :: "char \<Rightarrow> nat" where
  "digit_val c = of_char c - of_char CHR ''0''"

text \<open>\<open>'a' <= lower(c) && lower(c) <= 'f'\<close>, and the value \<open>lower(c) - 'a' + 10\<close>.\<close>

definition is_hex_letter :: "char \<Rightarrow> bool" where
  "is_hex_letter c \<longleftrightarrow> of_char CHR ''a'' \<le> lower c \<and> lower c \<le> of_char CHR ''f''"

definition hex_letter_val :: "char \<Rightarrow> nat" where
  "hex_letter_val c = lower c - of_char CHR ''a'' + 10"

text \<open>
  \<open>commonPrefixLenIgnoreCase(s, prefix)\<close>: the length of the longest common prefix,
  the upper-case letters of \<open>s\<close> taken as lower-case; \<open>prefix\<close> is in lower case.
\<close>

definition ascii_lower :: "char \<Rightarrow> nat" where
  "ascii_lower c =
     (if (of_char CHR ''A'' :: nat) \<le> of_char c \<and> (of_char c :: nat) \<le> of_char CHR ''Z''
      then of_char c + (of_char CHR ''a'' - of_char CHR ''A'')
      else of_char c)"

fun commonPrefixLenIgnoreCase :: "string \<Rightarrow> string \<Rightarrow> nat" where
  "commonPrefixLenIgnoreCase (c # cs) (p # ps) =
     (if ascii_lower c = of_char p then Suc (commonPrefixLenIgnoreCase cs ps) else 0)"
| "commonPrefixLenIgnoreCase cs ps = 0"

text \<open>
  \<open>special\<close>: an optional sign and \<open>inf\<close> or \<open>infinity\<close>, or \<open>nan\<close> without a sign, in any
  case of letters; the result is the value and the number of bytes read.
\<close>

definition read_inf :: "bool \<Rightarrow> nat \<Rightarrow> string \<Rightarrow> (gofloat \<times> nat) option" where
  "read_inf neg nsign s =
     (let n = commonPrefixLenIgnoreCase s ''infinity'';
          n = (if 3 < n \<and> n < 8 then 3 else n)
      in if n = 3 \<or> n = 8 then Some (if neg then NegInf else PosInf, nsign + n) else None)"

definition special :: "string \<Rightarrow> (gofloat \<times> nat) option" where
  "special s =
     (case s of
        [] \<Rightarrow> None
      | c # cs \<Rightarrow>
          if c = CHR ''+'' \<or> c = CHR ''-'' then read_inf (c = CHR ''-'') 1 cs
          else if c = CHR ''i'' \<or> c = CHR ''I'' then read_inf False 0 s
          else if c = CHR ''n'' \<or> c = CHR ''N'' then
            (if commonPrefixLenIgnoreCase s ''nan'' = 3 then Some (NaN, 3) else None)
          else None)"

text \<open>
  \<open>underscoreOK\<close>: an underscore stands only between two digits, or between a base
  prefix and a digit. \<open>saw\<close> is the kind of the last byte seen.
\<close>

datatype saw = SawStart | SawDigit | SawUnderscore | SawOther

fun underscore_scan :: "bool \<Rightarrow> saw \<Rightarrow> string \<Rightarrow> bool" where
  "underscore_scan hex sw [] = (sw \<noteq> SawUnderscore)"
| "underscore_scan hex sw (c # cs) =
     (if is_digit c \<or> hex \<and> is_hex_letter c then underscore_scan hex SawDigit cs
      else if c = CHR ''_'' then
        (if sw \<noteq> SawDigit then False else underscore_scan hex SawUnderscore cs)
      else if sw = SawUnderscore then False
      else underscore_scan hex SawOther cs)"

definition underscoreOK :: "string \<Rightarrow> bool" where
  "underscoreOK s =
     (let s1 = (case s of c # cs \<Rightarrow> if c = CHR ''-'' \<or> c = CHR ''+'' then cs else s | [] \<Rightarrow> s);
          pre = (case s1 of
                   c # d # cs \<Rightarrow> c = CHR ''0'' \<and>
                     (lower d = of_char CHR ''b'' \<or> lower d = of_char CHR ''o'' \<or>
                      lower d = of_char CHR ''x'')
                 | _ \<Rightarrow> False);
          hex = (pre \<and> lower (s1 ! 1) = of_char CHR ''x'')
      in underscore_scan hex (if pre then SawDigit else SawStart)
           (if pre then drop 2 s1 else s1))"

text \<open>
  The mantissa loop of \<open>readFloat\<close>. The state holds the digits read so far as a number
  in the base, and how many of them stand after the point.
\<close>

record scan =
  mant :: nat
  nfrac :: nat
  sawdot :: bool
  sawdigits :: bool
  underscores :: bool

definition scan0 :: scan where
  "scan0 = \<lparr>mant = 0, nfrac = 0, sawdot = False, sawdigits = False, underscores = False\<rparr>"

definition push_digit :: "nat \<Rightarrow> nat \<Rightarrow> scan \<Rightarrow> scan" where
  "push_digit base d st =
     st\<lparr>mant := mant st * base + d,
        nfrac := (if sawdot st then nfrac st + 1 else nfrac st),
        sawdigits := True\<rparr>"

fun scan_mantissa :: "nat \<Rightarrow> scan \<Rightarrow> string \<Rightarrow> scan \<times> string" where
  "scan_mantissa base st [] = (st, [])"
| "scan_mantissa base st (c # cs) =
     (if c = CHR ''_'' then scan_mantissa base (st\<lparr>underscores := True\<rparr>) cs
      else if c = CHR ''.'' then
        (if sawdot st then (st, c # cs) else scan_mantissa base (st\<lparr>sawdot := True\<rparr>) cs)
      else if is_digit c then scan_mantissa base (push_digit base (digit_val c) st) cs
      else if base = 16 \<and> is_hex_letter c then
        scan_mantissa base (push_digit base (hex_letter_val c) st) cs
      else (st, c # cs))"

text \<open>
  The digits of the exponent: \<open>if e < 10000 { e = e*10 + int(s[i]) - '0' }\<close>, underscores
  skipped and noted.
\<close>

fun scan_exp_digits :: "nat \<Rightarrow> bool \<Rightarrow> string \<Rightarrow> (nat \<times> bool) \<times> string" where
  "scan_exp_digits e us [] = ((e, us), [])"
| "scan_exp_digits e us (c # cs) =
     (if c = CHR ''_'' then scan_exp_digits e True cs
      else if is_digit c then
        scan_exp_digits (if e < 10000 then e * 10 + digit_val c else e) us cs
      else ((e, us), c # cs))"

text \<open>
  \<open>readFloat\<close>: sign, base prefix, mantissa, exponent. The result is the sign, whether
  the number is hexadecimal, the mantissa \<open>m\<close> and the exponent \<open>e\<close> (the number read is
  \<open>m \<sqdot> 10\<^sup>e\<close>, or \<open>m \<sqdot> 2\<^sup>e\<close> when hexadecimal) and the bytes not read; \<open>None\<close> is
  \<open>ok == false\<close>.
\<close>

definition read_finish ::
  "string \<Rightarrow> bool \<Rightarrow> bool \<Rightarrow> nat \<Rightarrow> int \<Rightarrow> bool \<Rightarrow> string \<Rightarrow> (bool \<times> bool \<times> nat \<times> int \<times> string) option" where
  "read_finish s neg hex m e us rest =
     (if us \<and> \<not> underscoreOK (take (length s - length rest) s) then None
      else Some (neg, hex, m, e, rest))"

definition readFloat :: "string \<Rightarrow> (bool \<times> bool \<times> nat \<times> int \<times> string) option" where
  "readFloat s =
     (case s of
        [] \<Rightarrow> None
      | c0 # _ \<Rightarrow>
          let neg = (c0 = CHR ''-'');
              s1 = (if c0 = CHR ''+'' \<or> c0 = CHR ''-'' then tl s else s);
              hex = (2 < length s1 \<and> s1 ! 0 = CHR ''0'' \<and> lower (s1 ! 1) = of_char CHR ''x'');
              base = (if hex then 16 else 10);
              (st, s3) = scan_mantissa base scan0 (if hex then drop 2 s1 else s1)
          in if \<not> sawdigits st then None
             else
               let dp = - int (nfrac st) * (if hex then 4 else 1)
               in (case s3 of
                     c # s3' \<Rightarrow>
                       if lower c = of_char (if hex then CHR ''p'' else CHR ''e'') then
                         (case s3' of
                            [] \<Rightarrow> None
                          | c1 # s3'' \<Rightarrow>
                              let esign = (if c1 = CHR ''-'' then - 1 else 1);
                                  s4 = (if c1 = CHR ''+'' \<or> c1 = CHR ''-'' then s3'' else s3')
                              in (case s4 of
                                    [] \<Rightarrow> None
                                  | c2 # _ \<Rightarrow>
                                      if \<not> is_digit c2 then None
                                      else
                                        (case scan_exp_digits 0 (underscores st) s4 of
                                           ((e, us), s5) \<Rightarrow>
                                             read_finish s neg hex (mant st)
                                               (dp + esign * int e) us s5)))
                       else if hex then None
                       else read_finish s neg hex (mant st) dp (underscores st) s3
                   | [] \<Rightarrow>
                       if hex then None
                       else read_finish s neg hex (mant st) dp (underscores st) s3))"

definition syntaxError :: "string \<Rightarrow> error" where
  "syntaxError s = NumError ''ParseFloat'' s ErrSyntax"

definition rangeError :: "string \<Rightarrow> error" where
  "rangeError s = NumError ''ParseFloat'' s ErrRange"

text \<open>
  \<open>ParseFloat(s, bitSize)\<close>: the whole of \<open>s\<close> must be read; the value is rounded to
  \<open>float32\<close> for \<open>bitSize = 32\<close> and to \<open>float64\<close> otherwise, and returned as a
  \<open>float64\<close>.
\<close>

definition ParseFloat :: "string \<Rightarrow> nat \<Rightarrow> gofloat \<times> error option" where
  "ParseFloat s bitSize =
     (case special s of
        Some (f, n) \<Rightarrow> if n = length s then (f, None) else (Finite 0, Some (syntaxError s))
      | None \<Rightarrow>
          (case readFloat s of
             None \<Rightarrow> (Finite 0, Some (syntaxError s))
           | Some (neg, hex, m, e, rest) \<Rightarrow>
               if rest \<noteq> [] then (Finite 0, Some (syntaxError s))
               else
                 let b = (if hex then 2 else 10);
                     N = (if 0 \<le> e then m * b ^ nat e else m);
                     D = (if 0 \<le> e then 1 else b ^ nat (- e))
                 in (case round_to_format (if bitSize = 32 then float32 else float64) N D of
                       None \<Rightarrow> (if neg then NegInf else PosInf, Some (rangeError s))
                     | Some v \<Rightarrow> (Finite (if neg then - v else v), None))))"

section \<open>parseFileSize\<close>

definition KiloByte :: int where
  "KiloByte = 1024"

definition MegaByte :: int where
  "MegaByte = KiloByte * 1024"

definition GigaByte :: int where
  "GigaByte = MegaByte * 1024"

text \<open>
  The product \<open>size * GigaByte\<close> of a \<open>float64\<close> and a constant that is a power of two.
  \<open>size\<close> comes from \<open>ParseFloat(_, 32)\<close>, so it has at most 24 significant bits and an
  exponent in the range of \<open>float32\<close>: the product is a number of \<open>float64\<close> and the
  multiplication does not round (lemma \<open>fmul_exact\<close> below).
\<close>

definition fmul :: "gofloat \<Rightarrow> int \<Rightarrow> gofloat" where
  "fmul f c = (case f of Finite q \<Rightarrow> Finite (q * of_int c) | PosInf \<Rightarrow> PosInf
               | NegInf \<Rightarrow> NegInf | NaN \<Rightarrow> NaN)"

text \<open>Truncation of a rational toward zero.\<close>

definition trunc :: "rat \<Rightarrow> int" where
  "trunc q = (if 0 \<le> q then \<lfloor>q\<rfloor> else \<lceil>q\<rceil>)"

text \<open>
  The conversion \<open>int64(f)\<close>: the fraction is discarded (truncation toward zero). When
  the truncated value is not an \<open>int64\<close>, or \<open>f\<close> is not finite, the language leaves
  the result to the implementation: it is the parameter \<open>impl\<close>.
\<close>

definition int64_of_float :: "(gofloat \<Rightarrow> int) \<Rightarrow> gofloat \<Rightarrow> int" where
  "int64_of_float impl f =
     (case f of
        Finite q \<Rightarrow>
          if - (2 ^ 63) \<le> trunc q \<and> trunc q < 2 ^ 63 then trunc q else impl f
      | _ \<Rightarrow> impl f)"

definition parseFileSize :: "(gofloat \<Rightarrow> int) \<Rightarrow> string \<Rightarrow> int \<times> error option" where
  "parseFileSize impl sizeStr =
     (if length sizeStr = 0 then (- 1, Some (ErrorString ''empty string''))
      else
        let lastChar = last sizeStr;
            sizePart = butlast sizeStr
        in (case ParseFloat sizePart 32 of
              (sz, Some err) \<Rightarrow> (- 1, Some err)
            | (sz, None) \<Rightarrow>
                if lastChar = CHR ''G'' then (int64_of_float impl (fmul sz GigaByte), None)
                else if lastChar = CHR ''M'' then (int64_of_float impl (fmul sz MegaByte), None)
                else if lastChar = CHR ''K'' then (int64_of_float impl (fmul sz KiloByte), None)
                else (- 1, Some (ErrorString (''unable to parse: '' @ sizeStr)))))"

text \<open>
  The unit letters and their factors in the words of the specification: \<open>K\<close> is 1024,
  \<open>M\<close> is \<open>1024\<^sup>2\<close>, \<open>G\<close> is \<open>1024\<^sup>3\<close>; any other byte is not a unit.
\<close>

definition unit_of :: "char \<Rightarrow> int option" where
  "unit_of c =
     (if c = CHR ''K'' then Some 1024
      else if c = CHR ''M'' then Some (1024 * 1024)
      else if c = CHR ''G'' then Some (1024 * 1024 * 1024)
      else None)"

text \<open>
  The number a decimal numeral writes, in the words of the specification: \<open>dec_val\<close> is
  the number of a string of digits, and \<open>decimal ip fp\<close> the number written with the
  digits \<open>ip\<close> before the point and the digits \<open>fp\<close> after it.
\<close>

definition dec_val :: "string \<Rightarrow> nat" where
  "dec_val ds = foldl (\<lambda>m c. m * 10 + digit_val c) 0 ds"

definition decimal :: "string \<Rightarrow> string \<Rightarrow> rat" where
  "decimal ip fp = of_nat (dec_val (ip @ fp)) / 10 ^ length fp"

text \<open>
  An implementation of the conversions the language leaves open: on amd64 the conversion
  instruction yields the least \<open>int64\<close> for a NaN and for every value out of range.
\<close>

definition impl_amd64 :: "gofloat \<Rightarrow> int" where
  "impl_amd64 f = - (2 ^ 63)"

section \<open>FormatSize (package tui)\<close>

definition digit_char :: "nat \<Rightarrow> char" where
  "digit_char d = ''0123456789'' ! d"

fun show_nat :: "nat \<Rightarrow> string" where
  "show_nat n = (if n < 10 then [digit_char n] else show_nat (n div 10) @ [digit_char (n mod 10)])"

declare show_nat.simps [simp del]

text \<open>\<open>fmt.Sprintf("%d", n)\<close>\<close>

definition fmt_d :: "int \<Rightarrow> string" where
  "fmt_d n = (if n < 0 then CHR ''-'' # show_nat (nat (- n)) else show_nat (nat n))"

text \<open>The conversion \<open>float64(size)\<close> of an \<open>int64\<close>: the nearest \<open>float64\<close>.\<close>

definition float64_of_int :: "int \<Rightarrow> gofloat" where
  "float64_of_int n =
     (case round_to_format float64 (nat \<bar>n\<bar>) 1 of
        None \<Rightarrow> (if n < 0 then NegInf else PosInf)
      | Some v \<Rightarrow> Finite (if n < 0 then - v else v))"

text \<open>
  The quotient \<open>x / float64(c)\<close> for a constant \<open>c\<close> that is a power of two. In
  \<open>FormatSize\<close> the dividend is the conversion of an \<open>int64\<close>, so the quotient is a
  number of \<open>float64\<close> and the division does not round (lemma \<open>fdiv_exact\<close> below).
\<close>

definition fdiv :: "gofloat \<Rightarrow> int \<Rightarrow> gofloat" where
  "fdiv f c = (case f of Finite q \<Rightarrow> Finite (q / of_int c) | PosInf \<Rightarrow> PosInf
               | NegInf \<Rightarrow> NegInf | NaN \<Rightarrow> NaN)"

text \<open>The integer nearest to a non-negative rational, a tie going to the even one.\<close>

definition rat_round_half_even :: "rat \<Rightarrow> nat" where
  "rat_round_half_even q =
     (let f = \<lfloor>q\<rfloor>; d = q - of_int f
      in nat (if d < 1 / 2 then f
              else if 1 / 2 < d then f + 1
              else if even f then f else f + 1))"

text \<open>
  \<open>fmt.Sprintf("%.2f", x)\<close>: the decimal expansion of the exact value of \<open>x\<close>, rounded to
  two digits after the point (\<open>strconv\<close> rounds the exact expansion to nearest, ties to
  even); the infinities and NaN are printed by name.
\<close>

definition fmt_f2 :: "gofloat \<Rightarrow> string" where
  "fmt_f2 x =
     (case x of
        Finite q \<Rightarrow>
          (let r = rat_round_half_even (\<bar>q\<bar> * 100)
           in (if q < 0 then ''-'' else '''') @ show_nat (r div 100) @ ''.'' @
              [digit_char (r mod 100 div 10), digit_char (r mod 10)])
      | PosInf \<Rightarrow> ''+Inf''
      | NegInf \<Rightarrow> ''-Inf''
      | NaN \<Rightarrow> ''NaN'')"

text \<open>\<open>FormatSize\<close> as the file of the utilities has it, with the variable \<open>result\<close>.\<close>

definition FormatSize :: "int \<Rightarrow> string" where
  "FormatSize sz =
     (if sz < 0 then ''--''
      else
        let result =
              (if sz \<ge> GigaByte then fmt_f2 (fdiv (float64_of_int sz) GigaByte) @ ''GB''
               else if sz \<ge> MegaByte then fmt_f2 (fdiv (float64_of_int sz) MegaByte) @ ''MB''
               else if sz \<ge> KiloByte then fmt_f2 (fdiv (float64_of_int sz) KiloByte) @ ''KB''
               else fmt_d sz @ ''B'')
        in result)"

text \<open>The copy of \<open>FormatSize\<close> beside the model of the user interface, with early returns.\<close>

definition FormatSize_copy :: "int \<Rightarrow> string" where
  "FormatSize_copy sz =
     (if sz < 0 then ''--''
      else if sz \<ge> GigaByte then fmt_f2 (fdiv (float64_of_int sz) GigaByte) @ ''GB''
      else if sz \<ge> MegaByte then fmt_f2 (fdiv (float64_of_int sz) MegaByte) @ ''MB''
      else if sz \<ge> KiloByte then fmt_f2 (fdiv (float64_of_int sz) KiloByte) @ ''KB''
      else fmt_d sz @ ''B'')"

text \<open>
  A plain decimal number: one or more digits, alone or followed by a point and exactly
  two digits. The unit suffix a size gets by the thresholds.
\<close>

definition is_number :: "string \<Rightarrow> bool" where
  "is_number s =
     (let ip = takeWhile is_digit s; rest = dropWhile is_digit s
      in ip \<noteq> [] \<and>
         (rest = [] \<or>
          (hd rest = CHR ''.'' \<and> length (tl rest) = 2 \<and> list_all is_digit (tl rest))))"

definition unit_suffix :: "int \<Rightarrow> string" where
  "unit_suffix sz =
     (if sz \<ge> 1024 * 1024 * 1024 then ''GB''
      else if sz \<ge> 1024 * 1024 then ''MB''
      else if sz \<ge> 1024 then ''KB''
      else ''B'')"

section \<open>Properties of the aggregator\<close>

lemma distinct_fold_assign:
  "distinct (map fst al) \<Longrightarrow>
   distinct (map fst (fold (\<lambda>res m. AList.update (URL res) res m) rs al))"
  by (induction rs arbitrary: al) (auto simp: distinct_update)

lemma keys_fold_assign:
  "fst ` set (fold (\<lambda>res m. AList.update (URL res) res m) rs al) = URL ` set rs \<union> fst ` set al"
  by (induction rs arbitrary: al) (auto simp: dom_update)

lemma map_of_fold_assign:
  "map_of (fold (\<lambda>res m. AList.update (URL res) res m) rs al) k =
     (if k \<in> URL ` set rs then Some (last (filter (\<lambda>r. URL r = k) rs)) else map_of al k)"
proof (induction rs arbitrary: al)
  case Nil
  then show ?case by simp
next
  case (Cons r rs)
  show ?case
    by (simp add: Cons.IH update_conv' filter_empty_conv image_iff) metis
qed

text \<open>The map after the scheduled goroutines is one fold over the merged records.\<close>

lemma fold_provider_task:
  "fst (fold (\<lambda>i. provider_task keywords (providerList registry ! i)) sched (al, ec)) =
     fold (\<lambda>res m. AList.update (URL res) res m)
       (concat (merged_batches sched registry keywords)) al"
proof (induction sched arbitrary: al ec)
  case Nil
  then show ?case by (simp add: merged_batches_def)
next
  case (Cons i sched)
  obtain resList err where p: "(providerList registry ! i) keywords = (resList, err)"
    by (cases "(providerList registry ! i) keywords")
  show ?case
  proof (cases err)
    case None
    with p Cons.IH show ?thesis
      by (simp add: provider_task_def merged_batches_def)
  next
    case (Some e)
    with p Cons.IH show ?thesis
      by (simp add: provider_task_def merged_batches_def)
  qed
qed

lemma merge_map_fold:
  "merge_map sched registry keywords =
     fold (\<lambda>res m. AList.update (URL res) res m)
       (concat (merged_batches sched registry keywords)) []"
  by (simp add: merge_map_def fold_provider_task)

lemma elems_fold_append:
  "elems (fold (\<lambda>(k, res) s. append_slice rt s res) es s) = elems s @ map snd es"
  by (induction es arbitrary: s) (auto simp: append_slice_def split: prod.splits)

lemma Search_elems:
  assumes "providerList registry \<noteq> []"
  shows "elems (fst (fst (Search rt sched registry keywords))) =
     sort_Slice rt bySizeDesc (map snd (range_order rt (merge_map sched registry keywords)))"
  using assms
  by (simp add: Search_def merge_map_def Let_def elems_fold_append make_slice_def
      split: prod.splits)

lemma Search_none:
  assumes "providerList registry = []"
  shows "Search rt sched registry keywords = ((empty_literal, None), [])"
  using assms by (simp add: Search_def)

lemma strict_weak_bySizeDesc: "strict_weak_order bySizeDesc"
  by (auto simp: strict_weak_order_def bySizeDesc_def)

lemma Search_mset:
  assumes "runtime_ok rt" "providerList registry \<noteq> []"
  shows "mset (elems (fst (fst (Search rt sched registry keywords)))) =
     mset (map snd (merge_map sched registry keywords))"
proof -
  have "mset (map snd (range_order rt (merge_map sched registry keywords))) =
        mset (map snd (merge_map sched registry keywords))"
    using assms(1) by (metis runtime_ok_def mset_map)
  then show ?thesis
    using assms by (simp add: Search_elems runtime_ok_def)
qed

lemma Search_sorted:
  assumes "runtime_ok rt"
  shows "sorted_wrt (\<lambda>a b. Size a \<ge> Size b)
           (elems (fst (fst (Search rt sched registry keywords))))"
proof (cases "providerList registry = []")
  case True
  then show ?thesis by (simp add: Search_none empty_literal_def)
next
  case False
  have "sorted_wrt (\<lambda>a b. \<not> bySizeDesc b a) (sort_Slice rt bySizeDesc xs)" for xs
    using assms strict_weak_bySizeDesc by (simp add: runtime_ok_def)
  then show ?thesis
    using False by (simp add: Search_elems bySizeDesc_def not_less)
qed

lemma mset_insert_by: "mset (insert_by lt x xs) = add_mset x (mset xs)"
  by (induction xs) auto

lemma mset_insertionSort: "mset (insertionSort lt xs) = mset xs"
  by (induction xs) (auto simp: mset_insert_by)

lemma set_insert_by: "set (insert_by lt x xs) = insert x (set xs)"
  by (induction xs) auto

lemma sorted_insert_by:
  assumes "strict_weak_order lt" "sorted_wrt (\<lambda>a b. \<not> lt b a) xs"
  shows "sorted_wrt (\<lambda>a b. \<not> lt b a) (insert_by lt x xs)"
  using assms(2)
proof (induction xs)
  case Nil
  then show ?case by simp
next
  case (Cons y ys)
  from assms(1) have asym: "\<And>a b. lt a b \<Longrightarrow> \<not> lt b a"
    and trans: "\<And>a b c. lt a b \<Longrightarrow> lt b c \<Longrightarrow> lt a c"
    unfolding strict_weak_order_def by blast+
  show ?case
  proof (cases "lt x y")
    case True
    then have "\<not> lt z x" if "z \<in> set ys" for z
      using that Cons.prems trans by auto
    with True Cons.prems asym show ?thesis by auto
  next
    case False
    with Cons show ?thesis by (auto simp: set_insert_by)
  qed
qed

lemma sorted_insertionSort:
  "strict_weak_order lt \<Longrightarrow> sorted_wrt (\<lambda>a b. \<not> lt b a) (insertionSort lt xs)"
  by (induction xs) (auto simp: sorted_insert_by)

lemma runtime_fifo_ok: "runtime_ok runtime_fifo"
  by (simp add: runtime_ok_def runtime_fifo_def mset_insertionSort sorted_insertionSort)

lemma runtime_lifo_ok: "runtime_ok runtime_lifo"
  by (simp add: runtime_ok_def runtime_lifo_def mset_insertionSort sorted_insertionSort)

lemma merge_map_entries:
  assumes "(k, v) \<in> set (merge_map sched registry keywords)"
  shows "k \<in> URL ` set (concat (merged_batches sched registry keywords)) \<and>
         v = last (filter (\<lambda>r. URL r = k) (concat (merged_batches sched registry keywords)))"
proof -
  let ?recs = "concat (merged_batches sched registry keywords)"
  have d: "distinct (map fst (merge_map sched registry keywords))"
    by (simp add: merge_map_fold distinct_fold_assign)
  with assms have "map_of (merge_map sched registry keywords) k = Some v"
    by simp
  then show ?thesis
    by (simp add: merge_map_fold map_of_fold_assign split: if_splits)
qed

lemma merge_map_URL:
  assumes "(k, v) \<in> set (merge_map sched registry keywords)"
  shows "URL v = k"
proof -
  let ?recs = "concat (merged_batches sched registry keywords)"
  from merge_map_entries[OF assms] have k: "k \<in> URL ` set ?recs"
    and v: "v = last (filter (\<lambda>r. URL r = k) ?recs)" by auto
  from k have "filter (\<lambda>r. URL r = k) ?recs \<noteq> []"
    by (auto simp: filter_empty_conv)
  then have "last (filter (\<lambda>r. URL r = k) ?recs) \<in> set (filter (\<lambda>r. URL r = k) ?recs)"
    by (rule last_in_set)
  with v show ?thesis by simp
qed

lemma map_URL_merge_map:
  "map URL (map snd (merge_map sched registry keywords)) = map fst (merge_map sched registry keywords)"
  by (auto simp: merge_map_URL)

lemma valid_sched_empty:
  "valid_sched registry sched \<Longrightarrow> providerList registry = [] \<Longrightarrow> sched = []"
  by (cases sched) (auto simp: valid_sched_def)

text \<open>
  Claim C1. Whatever batches \<open>Search\<close> has merged, the returned slice holds exactly one
  record for each distinct locator among them, its length is the number of distinct
  locators, and the record kept for a locator is the last one written for it in the order
  in which the goroutines held the mutex.
\<close>

theorem C1_dedup:
  assumes "runtime_ok rt" and "valid_sched registry sched"
  shows "let rs = elems (fst (fst (Search rt sched registry keywords)));
             recs = concat (merged_batches sched registry keywords)
         in distinct (map URL rs) \<and> set (map URL rs) = URL ` set recs \<and>
            length rs = card (URL ` set recs) \<and>
            (\<forall>r\<in>set rs. r = last (filter (\<lambda>x. URL x = URL r) recs))"
proof -
  let ?rs = "elems (fst (fst (Search rt sched registry keywords)))"
  let ?recs = "concat (merged_batches sched registry keywords)"
  let ?m = "merge_map sched registry keywords"
  have ms: "mset ?rs = mset (map snd ?m)"
  proof (cases "providerList registry = []")
    case True
    with assms(2) have "sched = []" by (simp add: valid_sched_empty)
    with True show ?thesis
      by (simp add: Search_none empty_literal_def merge_map_def)
  next
    case False
    with assms(1) show ?thesis by (rule Search_mset)
  qed
  have dm: "distinct (map fst ?m)"
    by (simp add: merge_map_fold distinct_fold_assign)
  have km: "set (map fst ?m) = URL ` set ?recs"
    by (simp add: merge_map_fold keys_fold_assign)
  from ms have "mset (map URL ?rs) = mset (map URL (map snd ?m))"
    by (metis mset_map)
  then have mu: "mset (map URL ?rs) = mset (map fst ?m)"
    by (simp only: map_URL_merge_map)
  from mu dm have d: "distinct (map URL ?rs)"
    by (metis mset_eq_imp_distinct_iff)
  from mu km have s: "set (map URL ?rs) = URL ` set ?recs"
    by (metis mset_eq_setD)
  from d s have l: "length ?rs = card (URL ` set ?recs)"
    by (metis distinct_card length_map)
  have w: "r = last (filter (\<lambda>x. URL x = URL r) ?recs)" if "r \<in> set ?rs" for r
  proof -
    from that ms have "r \<in> set (map snd ?m)" by (metis mset_eq_setD)
    then obtain k where kv: "(k, r) \<in> set ?m" by auto
    from merge_map_URL[OF kv] merge_map_entries[OF kv] show ?thesis by simp
  qed
  from d s l w show ?thesis by (simp add: Let_def)
qed

lemmas sample_defs = sample_registry_def NewProviderAggregator_def AddProvider_def
  prov_one_def prov_two_def prov_failing_def rec_a_def rec_a2_def rec_b_def rec_c_def rec_d_def loc_def

lemma valid_sample: "valid_sched sample_registry [0, 2, 1]"
  by (simp add: valid_sched_def sample_defs)

lemma eval_sample_fifo:
  "Search runtime_fifo [0, 2, 1] sample_registry kw =
     ((Slice [rec_a2, rec_c, rec_b] 1024, None),
      [TimeAfter 10, GoProvider 0, GoProvider 1, GoProvider 2, GoWaiter, Select])"
  by (simp add: Search_def sample_defs runtime_fifo_def provider_task_def make_slice_def
      append_slice_def len_def MaxResults_def bySizeDesc_def upt_rec)

lemma eval_sample_lifo:
  "Search runtime_lifo [0, 2, 1] sample_registry kw =
     ((Slice [rec_a2, rec_b, rec_c] 1024, None),
      [TimeAfter 10, GoProvider 0, GoProvider 1, GoProvider 2, GoWaiter, Select])"
  by (simp add: Search_def sample_defs runtime_lifo_def provider_task_def make_slice_def
      append_slice_def len_def MaxResults_def bySizeDesc_def upt_rec)

text \<open>Under the schedule 1, 0 it is the record of provider 0 that survives for locator 1.\<close>

lemma eval_sample_fifo2:
  "fst (Search runtime_fifo [1, 0] sample_registry kw) =
     (Slice [rec_a, rec_b, rec_c] 1024, None)"
  by (simp add: Search_def sample_defs runtime_fifo_def provider_task_def make_slice_def
      append_slice_def len_def MaxResults_def bySizeDesc_def upt_rec)

lemma eval_batches: "merged_batches [0, 2, 1] sample_registry kw = [[rec_a, rec_b], [], [rec_a2, rec_c]]"
  by (simp add: merged_batches_def sample_defs)

text \<open>
  The sample registry under the schedule 0, 2, 1: providers 0 and 1 both report locator 1,
  provider 1 holds the mutex last and its record survives; provider 2 returns an error
  and its record is not merged.
\<close>

theorem C1_dedup_witness:
  "runtime_ok runtime_fifo \<and> valid_sched sample_registry [0, 2, 1] \<and>
   concat (merged_batches [0, 2, 1] sample_registry [''linux'']) = [rec_a, rec_b, rec_a2, rec_c] \<and>
   elems (fst (fst (Search runtime_fifo [0, 2, 1] sample_registry [''linux'']))) = [rec_a2, rec_c, rec_b] \<and>
   distinct (map URL [rec_a2, rec_c, rec_b]) \<and>
   set (map URL [rec_a2, rec_c, rec_b]) = URL ` set [rec_a, rec_b, rec_a2, rec_c] \<and>
   length [rec_a2, rec_c, rec_b] = card (URL ` set [rec_a, rec_b, rec_a2, rec_c]) \<and>
   rec_a2 = last (filter (\<lambda>x. URL x = URL rec_a2) [rec_a, rec_b, rec_a2, rec_c]) \<and>
   rec_c = last (filter (\<lambda>x. URL x = URL rec_c) [rec_a, rec_b, rec_a2, rec_c]) \<and>
   rec_b = last (filter (\<lambda>x. URL x = URL rec_b) [rec_a, rec_b, rec_a2, rec_c])"
  using C1_dedup [OF runtime_fifo_ok valid_sample, of "[''linux'']", unfolded eval_sample_fifo eval_batches]
    runtime_fifo_ok valid_sample eval_sample_fifo [of "[''linux'']"] eval_batches [of "[''linux'']"]
  by (simp add: Let_def)

lemma Search_err: "snd (fst (Search rt sched registry keywords)) = None"
  by (simp add: Search_def Let_def split: prod.splits)

lemma Search_not_nil: "fst (fst (Search rt sched registry keywords)) \<noteq> NilSlice"
  by (simp add: Search_def Let_def empty_literal_def split: prod.splits)

text \<open>
  Claim C4. For every registry, every behaviour of its providers and every schedule, the
  error \<open>Search\<close> returns is nil and the slice it returns is not nil: the errors of
  providers only reach \<open>errChan\<close>, which is never read.
\<close>

theorem C4_no_aggregate_error:
  "snd (fst (Search rt sched registry keywords)) = None \<and>
   fst (fst (Search rt sched registry keywords)) \<noteq> NilSlice"
  by (simp add: Search_def Let_def empty_literal_def split: prod.splits)

text \<open>A registry whose only provider fails: the result is empty, not nil, and the error is nil.\<close>

lemma eval_all_failing:
  "Search runtime_fifo [0] (NewProviderAggregator [prov_failing]) kw =
     ((Slice [] 1024, None), [TimeAfter 10, GoProvider 0, GoWaiter, Select])"
  by (simp add: Search_def NewProviderAggregator_def prov_failing_def runtime_fifo_def
      provider_task_def make_slice_def MaxResults_def)

theorem C4_no_aggregate_error_witness:
  "Search runtime_fifo [0] (NewProviderAggregator [prov_failing]) [''linux''] =
     ((Slice [] 1024, None), [TimeAfter 10, GoProvider 0, GoWaiter, Select]) \<and>
   snd (fst (Search runtime_fifo [0] (NewProviderAggregator [prov_failing]) [''linux''])) = None \<and>
   fst (fst (Search runtime_fifo [0] (NewProviderAggregator [prov_failing]) [''linux''])) \<noteq> NilSlice"
  using C4_no_aggregate_error [of runtime_fifo "[0]" "NewProviderAggregator [prov_failing]" "[''linux'']"]
    eval_all_failing [of "[''linux'']"]
  by simp

text \<open>
  Claim C5. With no provider registered \<open>Search\<close> returns the empty slice and the nil
  error, and makes none of the calls that could wait: no timer, no goroutine, no
  \<open>select\<close>.
\<close>

theorem C5_no_providers:
  assumes "providerList registry = []"
  shows "Search rt sched registry keywords = ((Slice [] 0, None), [])"
  using assms by (simp add: Search_def empty_literal_def)

theorem C5_no_providers_witness:
  "providerList (NewProviderAggregator []) = [] \<and>
   Search runtime_fifo [] (NewProviderAggregator []) [''ubuntu''] = ((Slice [] 0, None), [])"
  using C5_no_providers [of "NewProviderAggregator []" runtime_fifo "[]" "[''ubuntu'']"]
  by (simp add: NewProviderAggregator_def)

text \<open>
  With a provider registered, \<open>Search\<close> starts the timer and the goroutines and waits in
  the \<open>select\<close>.
\<close>

lemma Search_waits:
  assumes "providerList registry \<noteq> []"
  shows "snd (Search rt sched registry keywords) =
     TimeAfter 10 # map GoProvider [0..<length (providerList registry)] @ [GoWaiter, Select]"
  using assms by (simp add: Search_def Let_def split: prod.splits)

text \<open>
  A provider that is not in the schedule, one that has not returned when the map is read,
  has no influence on what \<open>Search\<close> returns.
\<close>

lemma fold_provider_task_cong:
  assumes "\<forall>i\<in>set sched. providerList registry ! i = providerList registry' ! i"
  shows "fold (\<lambda>i. provider_task keywords (providerList registry ! i)) sched st =
         fold (\<lambda>i. provider_task keywords (providerList registry' ! i)) sched st"
  using assms by (induction sched arbitrary: st) simp_all

lemma Search_ignores_unscheduled:
  assumes "length (providerList registry) = length (providerList registry')"
    and "\<forall>i\<in>set sched. providerList registry ! i = providerList registry' ! i"
  shows "Search rt sched registry keywords = Search rt sched registry' keywords"
  using assms(1) fold_provider_task_cong [OF assms(2)]
  by (simp add: Search_def)

text \<open>
  Claim C2. In every returned slice each record is at least as large as its successor.
  Nothing fixes the order of two records of the same size: two runtimes that both meet
  the contract return them in opposite orders.
\<close>

theorem C2_sorted_by_size_desc:
  assumes "runtime_ok rt"
  shows "(let rs = elems (fst (fst (Search rt sched registry keywords)))
          in \<forall>i. i + 1 < length rs \<longrightarrow> Size (rs ! i) \<ge> Size (rs ! (i + 1))) \<and>
         (\<exists>rt1 rt2 sched' registry' x y.
            runtime_ok rt1 \<and> runtime_ok rt2 \<and> valid_sched registry' sched' \<and>
            Size x = Size y \<and> x \<noteq> y \<and>
            elems (fst (fst (Search rt1 sched' registry' keywords))) = [rec_a2, x, y] \<and>
            elems (fst (fst (Search rt2 sched' registry' keywords))) = [rec_a2, y, x])"
proof
  let ?rs = "elems (fst (fst (Search rt sched registry keywords)))"
  have "sorted_wrt (\<lambda>a b. Size a \<ge> Size b) ?rs"
    using assms by (rule Search_sorted)
  then have "Size (?rs ! i) \<ge> Size (?rs ! (i + 1))" if "i + 1 < length ?rs" for i
    using that by (simp add: sorted_wrt_iff_nth_less)
  then show "let rs = ?rs in \<forall>i. i + 1 < length rs \<longrightarrow> Size (rs ! i) \<ge> Size (rs ! (i + 1))"
    by (simp add: Let_def)
next
  have "Size rec_c = Size rec_b" "rec_c \<noteq> rec_b"
    by (simp_all add: rec_b_def rec_c_def)
  moreover have "elems (fst (fst (Search runtime_fifo [0, 2, 1] sample_registry keywords))) = [rec_a2, rec_c, rec_b]"
    by (simp only: eval_sample_fifo fst_conv elems.simps)
  moreover have "elems (fst (fst (Search runtime_lifo [0, 2, 1] sample_registry keywords))) = [rec_a2, rec_b, rec_c]"
    by (simp only: eval_sample_lifo fst_conv elems.simps)
  ultimately show "\<exists>rt1 rt2 sched' registry' x y.
            runtime_ok rt1 \<and> runtime_ok rt2 \<and> valid_sched registry' sched' \<and>
            Size x = Size y \<and> x \<noteq> y \<and>
            elems (fst (fst (Search rt1 sched' registry' keywords))) = [rec_a2, x, y] \<and>
            elems (fst (fst (Search rt2 sched' registry' keywords))) = [rec_a2, y, x]"
    using runtime_fifo_ok runtime_lifo_ok valid_sample by blast
qed

theorem C2_sorted_by_size_desc_witness:
  "runtime_ok runtime_lifo \<and>
   elems (fst (fst (Search runtime_lifo [0, 2, 1] sample_registry [''linux'']))) = [rec_a2, rec_b, rec_c] \<and>
   Size ([rec_a2, rec_b, rec_c] ! 0) \<ge> Size ([rec_a2, rec_b, rec_c] ! 1) \<and>
   Size ([rec_a2, rec_b, rec_c] ! 1) \<ge> Size ([rec_a2, rec_b, rec_c] ! 2)"
proof -
  let ?rs = "[rec_a2, rec_b, rec_c]"
  have e: "elems (fst (fst (Search runtime_lifo [0, 2, 1] sample_registry [''linux'']))) = ?rs"
    by (simp only: eval_sample_lifo fst_conv elems.simps)
  from C2_sorted_by_size_desc [OF runtime_lifo_ok, of "[0, 2, 1]" sample_registry "[''linux'']"]
  have a: "\<forall>i. i + 1 < length ?rs \<longrightarrow> Size (?rs ! i) \<ge> Size (?rs ! (i + 1))"
    unfolding e Let_def by (rule conjunct1)
  from a have "0 + 1 < length ?rs \<longrightarrow> Size (?rs ! 0) \<ge> Size (?rs ! (0 + 1))"
    by (rule spec)
  moreover from a have "1 + 1 < length ?rs \<longrightarrow> Size (?rs ! 1) \<ge> Size (?rs ! (1 + 1))"
    by (rule spec)
  ultimately show ?thesis using runtime_lifo_ok e by simp
qed

lemma cap_append_slice:
  assumes "\<forall>c n. n \<le> growslice rt c n"
  shows "cap s \<le> cap (append_slice rt s x) \<and> len (append_slice rt s x) \<le> cap (append_slice rt s x)"
proof (cases "len s + 1 \<le> cap s")
  case True
  then show ?thesis by (simp add: append_slice_def len_def)
next
  case False
  moreover have "len s + 1 \<le> growslice rt (cap s) (len s + 1)"
    using assms by blast
  ultimately show ?thesis by (simp add: append_slice_def len_def)
qed

lemma cap_fold_append:
  assumes "\<forall>c n. n \<le> growslice rt c n" "len s \<le> cap s"
  shows "cap s \<le> cap (fold (\<lambda>(k, res) s. append_slice rt s res) es s) \<and>
         len (fold (\<lambda>(k, res) s. append_slice rt s res) es s)
           \<le> cap (fold (\<lambda>(k, res) s. append_slice rt s res) es s)"
  using assms(2)
proof (induction es arbitrary: s)
  case Nil
  then show ?case by simp
next
  case (Cons e es)
  obtain k res where e: "e = (k, res)" by (cases e)
  from cap_append_slice[OF assms(1), of s res]
  have 1: "cap s \<le> cap (append_slice rt s res)"
    and 2: "len (append_slice rt s res) \<le> cap (append_slice rt s res)" by auto
  from Cons.IH[OF 2] 1 show ?case by (simp add: e) 
qed

lemma Search_cap:
  assumes "runtime_ok rt" "providerList registry \<noteq> []"
  shows "MaxResults \<le> cap (fst (fst (Search rt sched registry keywords))) \<and>
         len (fst (fst (Search rt sched registry keywords)))
           \<le> cap (fst (fst (Search rt sched registry keywords)))"
proof -
  let ?es = "range_order rt (merge_map sched registry keywords)"
  let ?s = "fold (\<lambda>(k, res) s. append_slice rt s res) ?es (make_slice MaxResults)"
  have g: "\<forall>c n. n \<le> growslice rt c n" using assms(1) by (simp add: runtime_ok_def)
  have "len (make_slice MaxResults :: XdccFileInfo slice) \<le> cap (make_slice MaxResults :: XdccFileInfo slice)"
    by (simp add: make_slice_def len_def)
  from cap_fold_append[OF g this, of ?es]
  have c: "MaxResults \<le> cap ?s" "len ?s \<le> cap ?s" by (simp_all add: make_slice_def)
  have l: "length (sort_Slice rt bySizeDesc (elems ?s)) = length (elems ?s)"
    using assms(1) by (metis runtime_ok_def size_mset)
  have "fst (fst (Search rt sched registry keywords)) = Slice (sort_Slice rt bySizeDesc (elems ?s)) (cap ?s)"
    using assms(2) by (simp add: Search_def merge_map_def Let_def split: prod.splits)
  with c l show ?thesis by (simp add: len_def)
qed

text \<open>
  Claim C8. \<open>MaxResults\<close> is only the capacity of the slice \<open>Search\<close> allocates: the
  returned slice holds every record of the map, as many as there are, and its capacity
  is at least \<open>MaxResults\<close>.
\<close>

theorem C8_cap_is_capacity_only:
  assumes "runtime_ok rt" and "valid_sched registry sched"
  shows "let res = fst (fst (Search rt sched registry keywords));
             m = merge_map sched registry keywords
         in mset (elems res) = mset (map snd m) \<and> len res = length m \<and>
            (providerList registry \<noteq> [] \<longrightarrow> MaxResults \<le> cap res \<and> len res \<le> cap res)"
proof -
  let ?res = "fst (fst (Search rt sched registry keywords))"
  let ?m = "merge_map sched registry keywords"
  have ms: "mset (elems ?res) = mset (map snd ?m)"
  proof (cases "providerList registry = []")
    case True
    with assms(2) have "sched = []" by (simp add: valid_sched_empty)
    with True show ?thesis
      by (simp add: Search_none empty_literal_def merge_map_def)
  next
    case False
    with assms(1) show ?thesis by (rule Search_mset)
  qed
  then have "size (mset (elems ?res)) = size (mset (map snd ?m))" by simp
  then have l: "len ?res = length ?m" by (simp add: len_def)
  have "providerList registry \<noteq> [] \<Longrightarrow> MaxResults \<le> cap ?res \<and> len ?res \<le> cap ?res"
    using assms(1) by (rule Search_cap)
  with ms l show ?thesis
    by (simp add: Let_def)
qed

lemma length_fold_assign_distinct:
  assumes "distinct (map URL rs)"
  shows "length (fold (\<lambda>res m. AList.update (URL res) res m) rs []) = length rs"
proof -
  let ?al = "fold (\<lambda>res m. AList.update (URL res) res m) rs []"
  have "distinct (map fst ?al)" by (simp add: distinct_fold_assign)
  then have "length (map fst ?al) = card (set (map fst ?al))" by (simp only: distinct_card)
  also have "\<dots> = card (URL ` set rs)" by (simp add: keys_fold_assign)
  also have "\<dots> = length rs" using assms by (metis distinct_card length_map set_map)
  finally show ?thesis by simp
qed

lemma merge_map_bulk:
  "length (merge_map [0] (NewProviderAggregator [prov_bulk n]) kw) = n"
proof -
  have "inj_on (\<lambda>i. loc (int i)) (set [0..<n])"
    by (auto simp: inj_on_def loc_def)
  then have "distinct (map URL (fst (prov_bulk n kw)))"
    by (simp add: prov_bulk_def distinct_map o_def)
  from length_fold_assign_distinct[OF this] show ?thesis
    by (simp add: merge_map_fold merged_batches_def NewProviderAggregator_def prov_bulk_def)
qed

text \<open>One provider reporting 1025 distinct locators: all 1025 records are returned.\<close>

theorem C8_cap_is_capacity_only_witness:
  "runtime_ok runtime_fifo \<and> valid_sched (NewProviderAggregator [prov_bulk 1025]) [0] \<and>
   len (fst (fst (Search runtime_fifo [0] (NewProviderAggregator [prov_bulk 1025]) [''linux'']))) = 1025 \<and>
   MaxResults < 1025"
proof -
  have v: "valid_sched (NewProviderAggregator [prov_bulk 1025]) [0]"
    by (simp add: valid_sched_def NewProviderAggregator_def)
  from C8_cap_is_capacity_only [OF runtime_fifo_ok v, of "[''linux'']"]
  have "len (fst (fst (Search runtime_fifo [0] (NewProviderAggregator [prov_bulk 1025]) [''linux'']))) =
        length (merge_map [0] (NewProviderAggregator [prov_bulk 1025]) [''linux''])"
    by (simp add: Let_def)
  with v runtime_fifo_ok show ?thesis
    by (simp add: merge_map_bulk MaxResults_def)
qed

section \<open>Evaluation of the numeric functions\<close>

lemma bitlen_0: "bitlen 0 = 0"
  by (simp add: bitlen.simps)

lemma bitlen_pos: "0 < n \<Longrightarrow> bitlen n = Suc (bitlen (n div 2))"
  by (subst bitlen.simps) simp

lemma bitlen_numeral: "bitlen (numeral k) = Suc (bitlen (numeral k div 2))"
  by (rule bitlen_pos) simp

lemma bitlen_1: "bitlen 1 = 1"
  by (subst bitlen.simps) (simp add: bitlen_0)

lemma bitlen_Suc0: "bitlen (Suc 0) = 1"
  using bitlen_1 by simp

lemmas round_simps = round_to_format_def float32_def float64_def ilog2_def pow2_le_def pow2_def
  round_half_even_def bitlen_numeral bitlen_0 bitlen_1 bitlen_Suc0 Let_def

lemma floor_rat_numeral: "\<lfloor>(numeral a :: rat) / numeral b\<rfloor> = numeral a div numeral b"
  using floor_divide_of_int_eq [of "numeral a" "numeral b", where ?'a = rat] by simp

lemma ceiling_rat_neg_numeral:
  "\<lceil>- ((numeral a :: rat) / numeral b)\<rceil> = - (numeral a div numeral b)"
  by (simp add: ceiling_def floor_rat_numeral)

lemmas scan_simps = is_digit_def digit_val_def is_hex_letter_def hex_letter_val_def lower_def
  push_digit_def scan0_def read_finish_def underscoreOK_def

lemmas parse_simps = ParseFloat_def special_def read_inf_def ascii_lower_def readFloat_def
  scan_simps round_simps syntaxError_def rangeError_def

lemma ceiling_rat_neg_one_div: "\<lceil>- ((1 :: rat) / numeral b)\<rceil> = - (1 div numeral b)"
  using ceiling_rat_neg_numeral [of Num.One b] by simp

lemmas size_simps = parseFileSize_def fmul_def int64_of_float_def trunc_def
  GigaByte_def MegaByte_def KiloByte_def floor_rat_numeral ceiling_rat_neg_numeral
  ceiling_rat_neg_one_div Let_def

section \<open>The rounding is IEEE 754 rounding to nearest\<close>

text \<open>The width of a positive number in bits.\<close>

lemma bitlen_bounds: "0 < n \<Longrightarrow> 2 ^ (bitlen n - 1) \<le> n \<and> n < 2 ^ bitlen n"
proof (induction n rule: bitlen.induct)
  case (1 n)
  show ?case
  proof (cases "n div 2 = 0")
    case True
    with "1.prems" have "n = 1" by (cases n) auto
    then show ?thesis by (simp add: bitlen_Suc0)
  next
    case False
    then have pos: "0 < n div 2" by simp
    with "1.IH" "1.prems"
    have ih: "2 ^ (bitlen (n div 2) - 1) \<le> n div 2" "n div 2 < 2 ^ bitlen (n div 2)"
      by auto
    have b: "bitlen n = Suc (bitlen (n div 2))"
      using "1.prems" by (rule bitlen_pos)
    have bp: "0 < bitlen (n div 2)"
      using pos by (simp add: bitlen_pos)
    from ih(1) have "2 * 2 ^ (bitlen (n div 2) - 1) \<le> n" by linarith
    moreover from bp have "(2::nat) * 2 ^ (bitlen (n div 2) - 1) = 2 ^ bitlen (n div 2)"
      by (cases "bitlen (n div 2)") simp_all
    moreover from ih(2) have "n < 2 * 2 ^ bitlen (n div 2)" by linarith
    ultimately show ?thesis by (simp add: b)
  qed
qed

lemma round_half_even_le: "round_half_even a b \<le> a div b + 1"
  by (simp add: round_half_even_def Let_def)

lemma round_half_even_by_1: "round_half_even a (Suc 0) = a"
  by (simp add: round_half_even_def Let_def)

lemma pow2_powi: "pow2 e = 2 powi e"
  by (simp add: pow2_def power_int_def inverse_eq_divide power_one_over)

lemma pow2_pos: "0 < pow2 e"
  by (simp add: pow2_powi)

lemma pow2_add: "pow2 (a + b) = pow2 a * pow2 b"
  by (simp add: pow2_powi power_int_add)

lemma pow2_mono: "a \<le> b \<Longrightarrow> pow2 a \<le> pow2 b"
  by (simp add: pow2_powi power_int_increasing)

lemma pow2_strict_mono: "a < b \<Longrightarrow> pow2 a < pow2 b"
  by (simp add: pow2_powi power_int_strict_increasing)

lemma pow2_nat: "pow2 (int n) = 2 ^ n"
  by (simp add: pow2_def)

lemma pow2_Suc: "pow2 (e + 1) = 2 * pow2 e"
  by (simp add: pow2_powi power_int_add_1)

lemma pow2_le_iff:
  assumes "0 < D"
  shows "pow2_le e N D \<longleftrightarrow> pow2 e \<le> of_nat N / of_nat D"
proof (cases "0 \<le> e")
  case True
  have "(of_nat (D * 2 ^ nat e) :: rat) \<le> of_nat N \<longleftrightarrow> D * 2 ^ nat e \<le> N"
    by (rule of_nat_le_iff)
  then show ?thesis
    using True assms by (simp add: pow2_le_def pow2_def pos_le_divide_eq mult.commute)
next
  case False
  have "(of_nat D :: rat) \<le> of_nat (N * 2 ^ nat (- e)) \<longleftrightarrow> D \<le> N * 2 ^ nat (- e)"
    by (rule of_nat_le_iff)
  then show ?thesis
    using False assms by (simp add: pow2_le_def pow2_def pos_le_divide_eq pos_divide_le_eq mult.commute)
qed

lemma of_nat_bitlen:
  assumes "0 < n"
  shows "pow2 (int (bitlen n) - 1) \<le> of_nat n" and "(of_nat n :: rat) < pow2 (int (bitlen n))"
proof -
  from bitlen_bounds [OF assms] have lo: "2 ^ (bitlen n - 1) \<le> n" and hi: "n < 2 ^ bitlen n"
    by auto
  have bpos: "0 < bitlen n" using assms by (simp add: bitlen_pos)
  then have "int (bitlen n) - 1 = int (bitlen n - 1)" by simp
  then have "pow2 (int (bitlen n) - 1) = of_nat (2 ^ (bitlen n - 1))"
    by (simp only: pow2_nat) simp
  also have "\<dots> \<le> of_nat n" using lo by (simp only: of_nat_le_iff)
  finally show "pow2 (int (bitlen n) - 1) \<le> of_nat n" .
  have "(of_nat n :: rat) < of_nat (2 ^ bitlen n)" using hi by (simp only: of_nat_less_iff)
  then show "(of_nat n :: rat) < pow2 (int (bitlen n))" by (simp add: pow2_nat)
qed

text \<open>\<open>ilog2 N D\<close> is the binary exponent of \<open>N / D\<close>.\<close>

lemma ilog2_bounds:
  assumes "0 < N" and "0 < D"
  shows "pow2 (ilog2 N D) \<le> of_nat N / of_nat D"
    and "of_nat N / of_nat D < pow2 (ilog2 N D + 1)"
proof -
  define k where "k = int (bitlen N) - int (bitlen D)"
  let ?x = "(of_nat N :: rat) / of_nat D"
  have Dp: "(0 :: rat) < of_nat D" using assms(2) by simp
  from of_nat_bitlen [OF assms(1)] have N1: "pow2 (int (bitlen N) - 1) \<le> of_nat N"
    and N2: "(of_nat N :: rat) < pow2 (int (bitlen N))" by auto
  from of_nat_bitlen [OF assms(2)] have D1: "pow2 (int (bitlen D) - 1) \<le> of_nat D"
    and D2: "(of_nat D :: rat) < pow2 (int (bitlen D))" by auto
  have up: "?x < pow2 (k + 1)"
  proof -
    have "pow2 (k + 1) * pow2 (int (bitlen D) - 1) = pow2 (int (bitlen N))"
      by (simp add: pow2_add [symmetric] k_def)
    then have "of_nat N < pow2 (k + 1) * pow2 (int (bitlen D) - 1)" using N2 by simp
    also have "\<dots> \<le> pow2 (k + 1) * of_nat D"
      using D1 pow2_pos [of "k + 1"] by (simp add: mult_left_mono)
    finally show ?thesis using Dp by (simp add: pos_divide_less_eq)
  qed
  have low: "pow2 (k - 1) < ?x"
  proof -
    have "pow2 (k - 1) * pow2 (int (bitlen D)) = pow2 (int (bitlen N) - 1)"
      by (simp add: pow2_add [symmetric] k_def)
    moreover have "pow2 (k - 1) * of_nat D < pow2 (k - 1) * pow2 (int (bitlen D))"
      using D2 pow2_pos [of "k - 1"] by (simp add: mult_strict_left_mono)
    ultimately have "pow2 (k - 1) * of_nat D < of_nat N" using N1 by simp
    then show ?thesis using Dp by (simp add: pos_less_divide_eq)
  qed
  show "pow2 (ilog2 N D) \<le> ?x"
    using low assms(2) by (auto simp: ilog2_def Let_def k_def [symmetric] pow2_le_iff)
  show "?x < pow2 (ilog2 N D + 1)"
    using up assms(2) by (auto simp: ilog2_def Let_def k_def [symmetric] pow2_le_iff not_le)
qed

text \<open>\<open>round_half_even\<close> is a nearest whole number, and an even one at a tie.\<close>

lemma round_half_even_near:
  assumes "0 < b"
  shows "\<bar>of_nat (round_half_even a b) - (of_nat a :: rat) / of_nat b\<bar> \<le> 1 / 2"
    and "\<bar>of_nat (round_half_even a b) - (of_nat a :: rat) / of_nat b\<bar> = 1 / 2
           \<Longrightarrow> even (round_half_even a b)"
proof -
  define q r where "q = a div b" and "r = a mod b"
  define y :: rat where "y = of_nat r / of_nat b"
  let ?d = "of_nat (round_half_even a b) - (of_nat a :: rat) / of_nat b"
  have a: "a = q * b + r" by (simp add: q_def r_def)
  have rb: "r < b" using assms by (simp add: r_def)
  have bp: "(0 :: rat) < of_nat b" using assms by simp
  have x: "(of_nat a :: rat) / of_nat b = of_nat q + y"
    using bp by (simp add: a add_divide_distrib y_def)
  have y0: "0 \<le> y" by (simp add: y_def)
  have "(of_nat r :: rat) < of_nat b" using rb by (simp only: of_nat_less_iff)
  then have y1: "y < 1" using bp by (simp add: y_def pos_divide_less_eq)
  consider "2 * r < b" | "b < 2 * r" | "2 * r = b" by linarith
  then have "\<bar>?d\<bar> \<le> 1 / 2 \<and> (\<bar>?d\<bar> = 1 / 2 \<longrightarrow> even (round_half_even a b))"
  proof cases
    case 1
    then have "(of_nat (2 * r) :: rat) < of_nat b" by (simp only: of_nat_less_iff)
    then have h: "y < 1 / 2" using bp by (simp add: y_def pos_divide_less_eq)
    have "round_half_even a b = q"
      using 1 by (simp add: round_half_even_def Let_def q_def r_def)
    then have d: "?d = - y" by (simp add: x)
    from h y0 show ?thesis unfolding d by (simp add: abs_if)
  next
    case 2
    then have "(of_nat b :: rat) < of_nat (2 * r)" by (simp only: of_nat_less_iff)
    then have h: "1 / 2 < y" using bp by (simp add: y_def pos_less_divide_eq)
    have "round_half_even a b = q + 1"
      using 2 by (simp add: round_half_even_def Let_def q_def r_def)
    then have d: "?d = 1 - y" by (simp add: x)
    from h y1 show ?thesis unfolding d by (simp add: abs_if)
  next
    case 3
    then have "(of_nat (2 * r) :: rat) = of_nat b" by (simp only: of_nat_eq_iff)
    then have h: "y = 1 / 2" using bp by (simp add: y_def field_simps)
    have e: "round_half_even a b = (if even q then q else q + 1)"
      using 3 by (simp add: round_half_even_def Let_def q_def r_def)
    then have d: "?d = (if even q then - y else 1 - y)" by (simp add: x)
    show ?thesis unfolding d using e by (simp add: h abs_if)
  qed
  then show "\<bar>?d\<bar> \<le> 1 / 2" and "\<bar>?d\<bar> = 1 / 2 \<Longrightarrow> even (round_half_even a b)"
    by blast+
qed

lemma round_half_even_upper: "a < c * b \<Longrightarrow> round_half_even a b \<le> c"
proof -
  assume "a < c * b"
  then have "a div b < c" by (simp add: less_mult_imp_div_less)
  with round_half_even_le [of a b] show ?thesis by simp
qed

lemma round_half_even_lower: "0 < b \<Longrightarrow> c * b \<le> a \<Longrightarrow> c \<le> round_half_even a b"
proof -
  assume "0 < b" "c * b \<le> a"
  then have "c \<le> a div b" by (simp add: less_eq_div_iff_mult_less_eq)
  moreover have "a div b \<le> round_half_even a b"
    by (simp add: round_half_even_def Let_def)
  ultimately show ?thesis by simp
qed

lemma pow2_pred: "0 < n \<Longrightarrow> pow2 (int n - 1) = 2 ^ (n - 1)"
  by (cases n) (simp_all add: pow2_nat)

lemma pow2_less_cancel:
  assumes "pow2 a < pow2 b"
  shows "a < b"
proof (rule ccontr)
  assume "\<not> a < b"
  then have "pow2 b \<le> pow2 a" by (simp add: pow2_mono)
  with assms show False by simp
qed

lemma representableI:
  assumes "m \<le> 2 ^ precision fmt" and "0 < precision fmt"
    and "emin fmt - (int (precision fmt) - 1) \<le> u"
    and "u + 1 \<le> emax fmt - (int (precision fmt) - 1)"
  shows "representable fmt (of_nat m * pow2 u)"
proof (cases "m = 2 ^ precision fmt")
  case False
  with assms(1) have "m < 2 ^ precision fmt" by simp
  moreover have "\<bar>of_nat m * pow2 u\<bar> = of_nat m * pow2 u"
    using pow2_pos [of u] by (simp add: abs_mult)
  ultimately show ?thesis
    unfolding representable_def using assms(3,4) by (intro exI [of _ m] exI [of _ u]) simp
next
  case True
  obtain p' where p': "precision fmt = Suc p'"
    using assms(2) by (cases "precision fmt") simp_all
  have "of_nat m * pow2 u = of_nat (2 ^ p') * pow2 (u + 1)"
    by (simp add: True p' pow2_Suc)
  moreover have "\<bar>of_nat (2 ^ p') * pow2 (u + 1)\<bar> = of_nat (2 ^ p') * pow2 (u + 1)"
    using pow2_pos [of "u + 1"] by (simp add: abs_mult)
  moreover have "(2 :: nat) ^ p' < 2 ^ precision fmt" by (simp add: p')
  ultimately show ?thesis
    unfolding representable_def using assms(3,4)
    by (intro exI [of _ "2 ^ p'"] exI [of _ "u + 1"]) simp
qed

text \<open>
  The value \<open>round_to_format\<close> returns, for a positive \<open>N / D\<close>: a multiple \<open>m\<close> of the unit in
  the last place, with \<open>m\<close> at most \<open>2\<^sup>p\<close> and, in a normal binade, at least \<open>2\<^sup>p\<^sup>-\<^sup>1\<close>.
\<close>

lemma round_to_format_shape:
  assumes "round_to_format fmt N D = Some v" and "0 < N" and "0 < D"
  obtains m where "v = of_nat m * pow2 (ulp_exp fmt N D)"
    and "\<bar>of_nat m - of_nat N / of_nat D / pow2 (ulp_exp fmt N D)\<bar> \<le> 1 / 2"
    and "\<bar>of_nat m - of_nat N / of_nat D / pow2 (ulp_exp fmt N D)\<bar> = 1 / 2 \<Longrightarrow> even m"
    and "m \<le> 2 ^ precision fmt"
    and "emin fmt \<le> ilog2 N D \<Longrightarrow> 0 < precision fmt \<Longrightarrow> 2 ^ (precision fmt - 1) \<le> m"
    and "v < pow2 (emax fmt + 1)"
proof -
  define u where "u = ulp_exp fmt N D"
  define A B where "A = (if 0 \<le> u then N else N * 2 ^ nat (- u))"
    and "B = (if 0 \<le> u then D * 2 ^ nat u else D)"
  define m where "m = round_half_even A B"
  have Bpos: "0 < B" using assms(3) by (simp add: B_def)
  have AB: "(of_nat A :: rat) / of_nat B = of_nat N / of_nat D / pow2 u"
    by (simp add: A_def B_def pow2_def)
  have m_eq: "m = (if 0 \<le> u then round_half_even N (D * 2 ^ nat u)
                   else round_half_even (N * 2 ^ nat (- u)) D)"
    by (simp add: m_def A_def B_def)
  from assms(1,2) have v: "v = of_nat m * pow2 u" and fin: "\<not> pow2 (emax fmt + 1) \<le> v"
    by (auto simp: round_to_format_def Let_def m_eq u_def ulp_exp_def split: if_splits)
  let ?x = "(of_nat N :: rat) / of_nat D"
  let ?e = "max (ilog2 N D) (emin fmt)"
  have ue: "u = ?e - (int (precision fmt) - 1)" by (simp add: u_def ulp_exp_def)
  from ilog2_bounds [OF assms(2,3)] have lo: "pow2 (ilog2 N D) \<le> ?x"
    and hi: "?x < pow2 (ilog2 N D + 1)" by auto
  have "?x < pow2 (?e + 1)"
    using hi pow2_mono [of "ilog2 N D + 1" "?e + 1"] by simp
  also have "pow2 (?e + 1) = pow2 (int (precision fmt)) * pow2 u"
    by (simp add: pow2_add [symmetric] ue)
  finally have xlt: "?x < pow2 (int (precision fmt)) * pow2 u" .
  have "?x / pow2 u < pow2 (int (precision fmt))"
    using pos_divide_less_eq [OF pow2_pos, of ?x u "pow2 (int (precision fmt))"] xlt
    by blast
  then have "(of_nat A :: rat) / of_nat B < of_nat (2 ^ precision fmt)"
    by (simp add: AB pow2_nat)
  then have "(of_nat A :: rat) < of_nat (2 ^ precision fmt * B)"
    using Bpos by (simp add: pos_divide_less_eq)
  then have "A < 2 ^ precision fmt * B" by (simp only: of_nat_less_iff)
  then have up: "m \<le> 2 ^ precision fmt"
    unfolding m_def by (rule round_half_even_upper)
  have low: "2 ^ (precision fmt - 1) \<le> m" if "emin fmt \<le> ilog2 N D" "0 < precision fmt"
  proof -
    from that(1) have "?e = ilog2 N D" by simp
    then have "pow2 (ilog2 N D) = pow2 (int (precision fmt) - 1) * pow2 u"
      by (simp add: pow2_add [symmetric] ue)
    with lo have xge: "pow2 (int (precision fmt) - 1) * pow2 u \<le> ?x" by simp
    have "pow2 (int (precision fmt) - 1) \<le> ?x / pow2 u"
      using pos_le_divide_eq [OF pow2_pos, of "pow2 (int (precision fmt) - 1)" ?x u] xge
      by blast
    then have "(of_nat (2 ^ (precision fmt - 1)) :: rat) \<le> of_nat A / of_nat B"
      using that(2) by (simp add: AB pow2_pred)
    then have "(of_nat (2 ^ (precision fmt - 1) * B) :: rat) \<le> of_nat A"
      using Bpos by (simp add: pos_le_divide_eq)
    then have "2 ^ (precision fmt - 1) * B \<le> A" by (simp only: of_nat_le_iff)
    with Bpos show ?thesis unfolding m_def by (rule round_half_even_lower)
  qed
  from round_half_even_near [OF Bpos, of A]
  have n1: "\<bar>of_nat m - ?x / pow2 u\<bar> \<le> 1 / 2"
    and n2: "\<bar>of_nat m - ?x / pow2 u\<bar> = 1 / 2 \<Longrightarrow> even m"
    by (simp_all add: m_def AB)
  from fin have "v < pow2 (emax fmt + 1)" by simp
  with v n1 n2 up low show ?thesis
    using that [of m] unfolding u_def by blast
qed

text \<open>
  Rounding to nearest, ties to even: the result is within half a unit in the last place
  of \<open>N / D\<close>, and where it is exactly half a unit away its significand is even.
\<close>

lemma round_to_format_nearest:
  assumes "round_to_format fmt N D = Some v" and "0 < N" and "0 < D"
  shows "\<bar>v - of_nat N / of_nat D\<bar> \<le> pow2 (ulp_exp fmt N D) / 2"
    and "\<exists>m. v = of_nat m * pow2 (ulp_exp fmt N D) \<and>
           (\<bar>v - of_nat N / of_nat D\<bar> = pow2 (ulp_exp fmt N D) / 2 \<longrightarrow> even m)"
proof -
  let ?u = "ulp_exp fmt N D"
  let ?x = "(of_nat N :: rat) / of_nat D"
  from round_to_format_shape [OF assms] obtain m where
    v: "v = of_nat m * pow2 ?u"
    and n1: "\<bar>of_nat m - ?x / pow2 ?u\<bar> \<le> 1 / 2"
    and n2: "\<bar>of_nat m - ?x / pow2 ?u\<bar> = 1 / 2 \<Longrightarrow> even m"
    by blast
  have "v - ?x = (of_nat m - ?x / pow2 ?u) * pow2 ?u"
    using pow2_pos [of ?u] by (simp add: v field_simps)
  then have d: "\<bar>v - ?x\<bar> = \<bar>of_nat m - ?x / pow2 ?u\<bar> * pow2 ?u"
    using pow2_pos [of ?u] by (simp add: abs_mult)
  from n1 show "\<bar>v - ?x\<bar> \<le> pow2 ?u / 2"
    unfolding d using pow2_pos [of ?u] by (simp add: field_simps)
  have "even m" if "\<bar>v - ?x\<bar> = pow2 ?u / 2"
  proof -
    from that have "\<bar>of_nat m - ?x / pow2 ?u\<bar> = 1 / 2"
      unfolding d using pow2_pos [of ?u] by (simp add: field_simps)
    then show ?thesis by (rule n2)
  qed
  with v show "\<exists>m. v = of_nat m * pow2 ?u \<and> (\<bar>v - ?x\<bar> = pow2 ?u / 2 \<longrightarrow> even m)"
    by blast
qed

text \<open>The result is a number of the format.\<close>

lemma round_to_format_representable:
  assumes "round_to_format fmt N D = Some v" and "0 < D" and "0 < precision fmt"
    and "emin fmt \<le> emax fmt"
  shows "representable fmt v"
proof (cases "N = 0")
  case True
  with assms(1) have "v = 0" by (simp add: round_to_format_def)
  then have "v = of_nat 0 * pow2 (emin fmt - (int (precision fmt) - 1))" by simp
  moreover have "representable fmt (of_nat 0 * pow2 (emin fmt - (int (precision fmt) - 1)))"
    unfolding representable_def using assms(4)
    by (intro exI [of _ 0] exI [of _ "emin fmt - (int (precision fmt) - 1)"]) simp
  ultimately show ?thesis by simp
next
  case False
  then have Npos: "0 < N" by simp
  let ?u = "ulp_exp fmt N D"
  from round_to_format_shape [OF assms(1) Npos assms(2)] obtain m where
    v: "v = of_nat m * pow2 ?u" and up: "m \<le> 2 ^ precision fmt"
    and low: "emin fmt \<le> ilog2 N D \<Longrightarrow> 0 < precision fmt \<Longrightarrow> 2 ^ (precision fmt - 1) \<le> m"
    and fin: "v < pow2 (emax fmt + 1)"
    by blast
  have lo_u: "emin fmt - (int (precision fmt) - 1) \<le> ?u"
    by (simp add: ulp_exp_def)
  show ?thesis
  proof (cases "m = 2 ^ precision fmt")
    case True
    then have "v = pow2 (int (precision fmt) + ?u)"
      by (simp add: v pow2_add pow2_nat)
    with fin have "pow2 (int (precision fmt) + ?u) < pow2 (emax fmt + 1)" by simp
    then have "int (precision fmt) + ?u < emax fmt + 1" by (rule pow2_less_cancel)
    then have "?u + 1 \<le> emax fmt - (int (precision fmt) - 1)" by simp
    with up assms(3) lo_u show ?thesis unfolding v by (rule representableI)
  next
    case False
    with up have m_lt: "m < 2 ^ precision fmt" by simp
    have hi_u: "?u \<le> emax fmt - (int (precision fmt) - 1)"
    proof (cases "emin fmt \<le> ilog2 N D")
      case False
      then show ?thesis using assms(4) by (simp add: ulp_exp_def)
    next
      case True
      then have e: "?u = ilog2 N D - (int (precision fmt) - 1)" by (simp add: ulp_exp_def)
      from low [OF True assms(3)] have "(of_nat (2 ^ (precision fmt - 1)) :: rat) \<le> of_nat m"
        by (simp only: of_nat_le_iff)
      then have "pow2 (int (precision fmt) - 1) \<le> of_nat m"
        using assms(3) by (simp add: pow2_pred)
      then have "pow2 (int (precision fmt) - 1) * pow2 ?u \<le> v"
        unfolding v using pow2_pos [of ?u] by (simp add: mult_right_mono)
      then have "pow2 (ilog2 N D) \<le> v"
        by (simp add: pow2_add [symmetric] e)
      with fin have "pow2 (ilog2 N D) < pow2 (emax fmt + 1)" by simp
      then have "ilog2 N D < emax fmt + 1" by (rule pow2_less_cancel)
      then show ?thesis by (simp add: e)
    qed
    have "\<bar>v\<bar> = of_nat m * pow2 ?u"
      using pow2_pos [of ?u] by (simp add: v abs_mult)
    with m_lt lo_u hi_u show ?thesis
      unfolding representable_def by blast
  qed
qed

section \<open>Properties of parseFileSize\<close>

lemma ParseFloat_1_5: "ParseFloat ''1.5'' 32 = (Finite (3 / 2), None)"
  by (simp add: parse_simps)

lemma ParseFloat_500: "ParseFloat ''500'' 32 = (Finite 500, None)"
  by (simp add: parse_simps)

lemma ParseFloat_10: "ParseFloat ''10'' 32 = (Finite 10, None)"
  by (simp add: parse_simps)

lemma ParseFloat_3: "ParseFloat ''3'' 32 = (Finite 3, None)"
  by (simp add: parse_simps)

lemma ParseFloat_0_3: "ParseFloat ''0.3'' 32 = (Finite (5033165 / 16777216), None)"
  by (simp add: parse_simps)

lemma ParseFloat_0_1: "ParseFloat ''0.1'' 32 = (Finite (13421773 / 134217728), None)"
  by (simp add: parse_simps)

lemma ParseFloat_neg_5: "ParseFloat ''-5'' 32 = (Finite (- 5), None)"
  by (simp add: parse_simps)

lemma ParseFloat_neg_small: "ParseFloat ''-0.00048828125'' 32 = (Finite (- (1 / 2048)), None)"
  by (simp add: parse_simps)

lemma ParseFloat_empty: "ParseFloat '''' 32 = (Finite 0, Some (NumError ''ParseFloat'' '''' ErrSyntax))"
  by (simp add: parse_simps)

text \<open>The general shape of a successful call: a unit letter after a number that parses.\<close>

lemma unit_of_cases:
  "unit_of c = Some u \<longleftrightarrow>
     c = CHR ''K'' \<and> u = KiloByte \<or> c = CHR ''M'' \<and> u = MegaByte \<or> c = CHR ''G'' \<and> u = GigaByte"
  by (auto simp: unit_of_def KiloByte_def MegaByte_def GigaByte_def)

lemma parseFileSize_unit:
  assumes "s \<noteq> []" and "ParseFloat (butlast s) 32 = (f, None)" and "unit_of (last s) = Some u"
  shows "parseFileSize impl s = (int64_of_float impl (fmul f u), None)"
  using assms by (auto simp: parseFileSize_def unit_of_cases Let_def)

lemma parseFileSize_ok_iff:
  "parseFileSize impl s = (n, None) \<longleftrightarrow>
     s \<noteq> [] \<and> (\<exists>f u. ParseFloat (butlast s) 32 = (f, None) \<and> unit_of (last s) = Some u \<and>
                  n = int64_of_float impl (fmul f u))"
proof (cases "s = []")
  case True
  then show ?thesis by (simp add: parseFileSize_def)
next
  case False
  obtain f err where p: "ParseFloat (butlast s) 32 = (f, err)"
    by (cases "ParseFloat (butlast s) 32")
  show ?thesis
  proof (cases err)
    case (Some e)
    with False p show ?thesis by (simp add: parseFileSize_def)
  next
    case None
    with False p show ?thesis
      by (auto simp: parseFileSize_def unit_of_def KiloByte_def MegaByte_def GigaByte_def)
  qed
qed

lemma int64_of_float_in_range:
  assumes "- (2 ^ 63) \<le> trunc q" and "trunc q < 2 ^ 63"
  shows "int64_of_float impl (Finite q) = trunc q"
  using assms by (simp add: int64_of_float_def)

text \<open>\<open>trunc\<close> discards the fraction: it is the whole number next to \<open>q\<close> in the direction of zero.\<close>

lemma trunc_toward_zero:
  "\<bar>of_int (trunc q)\<bar> \<le> \<bar>q\<bar> \<and> \<bar>q - of_int (trunc q)\<bar> < 1"
proof (cases "0 \<le> q")
  case True
  then have t: "trunc q = \<lfloor>q\<rfloor>" by (simp add: trunc_def)
  have 1: "0 \<le> (of_int \<lfloor>q\<rfloor> :: rat)" using True by simp
  have 2: "(of_int \<lfloor>q\<rfloor> :: rat) \<le> q" by (rule of_int_floor_le)
  have 3: "q < of_int \<lfloor>q\<rfloor> + 1" by linarith
  from 1 2 3 True show ?thesis unfolding t by linarith
next
  case False
  then have t: "trunc q = \<lceil>q\<rceil>" by (simp add: trunc_def)
  have 1: "(of_int \<lceil>q\<rceil> :: rat) \<le> 0" using False by (simp add: ceiling_le_iff)
  have 2: "q \<le> of_int \<lceil>q\<rceil>" by (rule le_of_int_ceiling)
  have 3: "of_int \<lceil>q\<rceil> < q + 1" by linarith
  from 1 2 3 False show ?thesis unfolding t by linarith
qed

text \<open>
  What \<open>ParseFloat\<close> returns for \<open>bitSize = 32\<close> without an error is a number of
  \<open>float32\<close> when it is finite, and its product with a unit factor is a number of
  \<open>float64\<close>: the \<open>float64\<close> multiplication in \<open>parseFileSize\<close> does not round.
\<close>

lemma special_not_finite: "special s = Some (f, n) \<Longrightarrow> f \<noteq> Finite q"
  by (auto simp: special_def read_inf_def Let_def split: list.splits if_splits)

lemma ParseFloat_32_representable:
  assumes "ParseFloat s 32 = (Finite q, None)"
  shows "representable float32 q"
proof (cases "special s")
  case (Some fn)
  obtain f n where fn: "fn = (f, n)" by (cases fn)
  with Some assms have "f = Finite q"
    by (simp add: ParseFloat_def split: if_splits)
  with Some fn special_not_finite show ?thesis by blast
next
  case None
  show ?thesis
  proof (cases "readFloat s")
    case None
    with \<open>special s = None\<close> assms show ?thesis by (simp add: ParseFloat_def)
  next
    case (Some r)
    obtain neg hex m e rest where r: "r = (neg, hex, m, e, rest)" by (cases r)
    define b :: nat where "b = (if hex then 2 else 10)"
    define N where "N = (if 0 \<le> e then m * b ^ nat e else m)"
    define D where "D = (if 0 \<le> e then 1 else b ^ nat (- e))"
    have Dpos: "0 < D" by (simp add: D_def b_def)
    from assms \<open>special s = None\<close> Some r
    obtain v where v: "round_to_format float32 N D = Some v" and q: "q = (if neg then - v else v)"
      by (auto simp: ParseFloat_def Let_def N_def D_def b_def split: if_splits option.splits)
    from v Dpos have "representable float32 v"
      by (rule round_to_format_representable) (simp_all add: float32_def)
    then show ?thesis by (simp add: representable_def q)
  qed
qed

lemma representable_float32_times_unit:
  assumes "representable float32 q" and "unit_of c = Some u"
  shows "representable float64 (q * of_int u)"
proof -
  from assms(1) obtain m e where q: "\<bar>q\<bar> = of_nat m * pow2 e" and m: "m < 2 ^ 24"
    and e: "- 149 \<le> e" "e \<le> 104"
    by (auto simp: representable_def float32_def)
  from assms(2) obtain k :: int where k: "0 \<le> k" "k \<le> 30" and u: "(of_int u :: rat) = pow2 k"
  proof -
    from assms(2) consider "u = 1024" | "u = 1024 * 1024" | "u = 1024 * 1024 * 1024"
      by (auto simp: unit_of_def split: if_splits)
    then show ?thesis
    proof cases
      case 1
      then have "(of_int u :: rat) = pow2 10" by (simp add: pow2_def)
      then show ?thesis using that [of 10] by simp
    next
      case 2
      then have "(of_int u :: rat) = pow2 20" by (simp add: pow2_def)
      then show ?thesis using that [of 20] by simp
    next
      case 3
      then have "(of_int u :: rat) = pow2 30" by (simp add: pow2_def)
      then show ?thesis using that [of 30] by simp
    qed
  qed
  have "\<bar>q * of_int u\<bar> = \<bar>q\<bar> * pow2 k"
    using pow2_pos [of k] by (simp add: abs_mult u)
  also have "\<dots> = of_nat m * pow2 (e + k)"
    by (simp add: q pow2_add)
  finally have "\<bar>q * of_int u\<bar> = of_nat m * pow2 (e + k)" .
  moreover have "m < 2 ^ 53"
    using m by (rule less_trans) simp
  ultimately show ?thesis
    unfolding representable_def float64_def using e k
    by (intro exI [of _ m] exI [of _ "e + k"]) simp
qed

lemma fmul_exact:
  assumes "ParseFloat s 32 = (Finite q, None)" and "unit_of c = Some u"
  shows "fmul (Finite q) u = Finite (q * of_int u) \<and> representable float64 (q * of_int u)"
  using assms
  by (simp add: fmul_def ParseFloat_32_representable representable_float32_times_unit)

text \<open>
  A decimal numeral: digits, a point, digits. \<open>readFloat\<close> reads all of it, as the number
  of its digits with the exponent minus the count of the digits after the point, and
  \<open>ParseFloat\<close> returns that number rounded to \<open>float32\<close>.
\<close>

lemma is_digit_cases: "is_digit c \<Longrightarrow> c \<in> set ''0123456789''"
proof -
  assume "is_digit c"
  then have "(48 :: nat) \<le> of_char c \<and> (of_char c :: nat) \<le> 57"
    by (simp add: is_digit_def)
  then have "(of_char c :: nat) \<in> {48, 49, 50, 51, 52, 53, 54, 55, 56, 57}"
    by simp arith
  then have "(of_char c :: nat) \<in> of_char ` set ''0123456789''"
    by simp
  then obtain d where "d \<in> set ''0123456789''" "(of_char c :: nat) = of_char d"
    by blast
  then show ?thesis by simp
qed

lemma digit_not_special:
  assumes "is_digit c \<or> c = CHR ''.''"
  shows "c \<noteq> CHR ''+''" "c \<noteq> CHR ''-''" "c \<noteq> CHR ''i''" "c \<noteq> CHR ''I''"
    "c \<noteq> CHR ''n''" "c \<noteq> CHR ''N''" "c \<noteq> CHR ''_''" "lower c \<noteq> of_char CHR ''x''"
    "lower c \<noteq> of_char CHR ''e''"
  using assms is_digit_cases [of c] by (auto simp: lower_def)

lemma digit_not_dot: "is_digit c \<Longrightarrow> c \<noteq> CHR ''.''"
  using is_digit_cases [of c] by auto

lemma scan_digits:
  "list_all is_digit ds \<Longrightarrow>
   scan_mantissa 10 \<lparr>mant = m, nfrac = k, sawdot = d, sawdigits = g, underscores = us\<rparr> (ds @ rest) =
   scan_mantissa 10 \<lparr>mant = foldl (\<lambda>m c. m * 10 + digit_val c) m ds,
       nfrac = (if d then k + length ds else k), sawdot = d, sawdigits = (g \<or> ds \<noteq> []),
       underscores = us\<rparr> rest"
proof (induction ds arbitrary: m k g)
  case Nil
  then show ?case by simp
next
  case (Cons c ds)
  then have c: "is_digit c" and ds: "list_all is_digit ds" by simp_all
  from c have n: "c \<noteq> CHR ''_''" "c \<noteq> CHR ''.''"
    using digit_not_special(7) [of c] digit_not_dot [of c] by simp_all
  show ?case
    using c n Cons.IH [OF ds, of "m * 10 + digit_val c" "if d then k + 1 else k" True]
    by (cases d) (simp_all add: push_digit_def)
qed

lemma scan_decimal:
  assumes "list_all is_digit ip" and "list_all is_digit fp"
  shows "scan_mantissa 10 scan0 (ip @ CHR ''.'' # fp) =
     (\<lparr>mant = dec_val (ip @ fp), nfrac = length fp, sawdot = True,
       sawdigits = (ip @ fp \<noteq> []), underscores = False\<rparr>, [])"
proof -
  have "scan_mantissa 10 scan0 (ip @ CHR ''.'' # fp) =
        scan_mantissa 10 \<lparr>mant = dec_val ip, nfrac = 0, sawdot = False, sawdigits = (ip \<noteq> []),
          underscores = False\<rparr> (CHR ''.'' # fp)"
    unfolding scan0_def using scan_digits [OF assms(1), of 0 0 False False False "CHR ''.'' # fp"]
    by (simp add: dec_val_def)
  also have "\<dots> = scan_mantissa 10 \<lparr>mant = dec_val ip, nfrac = 0, sawdot = True,
          sawdigits = (ip \<noteq> []), underscores = False\<rparr> (fp @ [])"
    by simp
  also have "\<dots> = (\<lparr>mant = dec_val (ip @ fp), nfrac = length fp, sawdot = True,
       sawdigits = (ip @ fp \<noteq> []), underscores = False\<rparr>, [])"
    using scan_digits [OF assms(2), of "dec_val ip" 0 True "ip \<noteq> []" False "[]"]
    by (simp add: dec_val_def)
  finally show ?thesis .
qed

lemma readFloat_plain:
  assumes "s = c0 # t" and "c0 \<noteq> CHR ''+''" and "c0 \<noteq> CHR ''-''"
    and "\<not> (2 < length s \<and> s ! 0 = CHR ''0'' \<and> lower (s ! 1) = of_char CHR ''x'')"
    and "scan_mantissa 10 scan0 s = (st, [])" and "sawdigits st" and "\<not> underscores st"
  shows "readFloat s = Some (False, False, mant st, - int (nfrac st), [])"
proof -
  have sign: "(c0 = CHR ''+'') = False" "(c0 = CHR ''-'') = False"
    using assms(2,3) by simp_all
  have hex: "(2 < length (c0 # t) \<and> (c0 # t) ! 0 = CHR ''0'' \<and>
      lower ((c0 # t) ! 1) = of_char CHR ''x'') = False"
    using assms(1,4) by blast
  have sc: "scan_mantissa 10 scan0 (c0 # t) = (st, [])"
    using assms(1,5) by blast
  show ?thesis
    unfolding readFloat_def
    apply (simp only: assms(1) list.case Let_def sign simp_thms if_False hex sc prod.case)
    apply (simp add: assms(6,7) read_finish_def)
    done
qed

lemma readFloat_decimal:
  assumes "list_all is_digit ip" and "list_all is_digit fp" and "ip @ fp \<noteq> []"
  shows "readFloat (ip @ CHR ''.'' # fp) =
           Some (False, False, dec_val (ip @ fp), - int (length fp), [])"
    and "special (ip @ CHR ''.'' # fp) = None"
proof -
  let ?s = "ip @ CHR ''.'' # fp"
  have all: "\<forall>c \<in> set ?s. is_digit c \<or> c = CHR ''.''"
    using assms(1,2) by (auto simp: list_all_iff)
  obtain c0 t where s: "?s = c0 # t" by (cases ?s) auto
  then have "c0 \<in> set ?s" by simp
  with all have c0: "is_digit c0 \<or> c0 = CHR ''.''" by blast
  have nohex: "\<not> (2 < length ?s \<and> ?s ! 0 = CHR ''0'' \<and> lower (?s ! 1) = of_char CHR ''x'')"
  proof
    assume h: "2 < length ?s \<and> ?s ! 0 = CHR ''0'' \<and> lower (?s ! 1) = of_char CHR ''x''"
    then have "1 < length ?s" by linarith
    then have "?s ! 1 \<in> set ?s" by (rule nth_mem)
    with all have "is_digit (?s ! 1) \<or> ?s ! 1 = CHR ''.''" by blast
    then have "lower (?s ! 1) \<noteq> of_char CHR ''x''" by (rule digit_not_special(8))
    with h show False by simp
  qed
  show "special ?s = None"
    using digit_not_special(1-6) [OF c0] by (simp add: special_def s)
  from readFloat_plain [OF s digit_not_special(1,2) [OF c0] nohex scan_decimal [OF assms(1,2)]]
    assms(3)
  show "readFloat ?s = Some (False, False, dec_val (ip @ fp), - int (length fp), [])"
    by simp
qed

lemma round_to_format_nonneg: "round_to_format fmt N D = Some v \<Longrightarrow> 0 \<le> v"
  using pow2_pos [of "max (ilog2 N D) (emin fmt) - (int (precision fmt) - 1)"]
  by (auto simp: round_to_format_def Let_def split: if_splits)

lemma ParseFloat_decimal:
  assumes "list_all is_digit ip" and "list_all is_digit fp" and "ip @ fp \<noteq> []"
  shows "ParseFloat (ip @ CHR ''.'' # fp) 32 =
           (case round_to_format float32 (dec_val (ip @ fp)) (10 ^ length fp) of
              None \<Rightarrow> (PosInf, Some (rangeError (ip @ CHR ''.'' # fp)))
            | Some v \<Rightarrow> (Finite v, None))"
  using readFloat_decimal [OF assms]
  by (cases "fp = []") (simp_all add: ParseFloat_def Let_def split: option.splits)

lemma round_decimal_nearest:
  assumes "round_to_format float32 (dec_val (ip @ fp)) (10 ^ length fp) = Some v"
  shows "\<bar>v - decimal ip fp\<bar> \<le> pow2 (ulp_exp float32 (dec_val (ip @ fp)) (10 ^ length fp)) / 2"
proof (cases "dec_val (ip @ fp) = 0")
  case True
  with assms have "v = 0" by (simp add: round_to_format_def)
  with True show ?thesis
    using pow2_pos [of "ulp_exp float32 0 (10 ^ length fp)"] by (simp add: decimal_def)
next
  case False
  then have "0 < dec_val (ip @ fp)" by simp
  from round_to_format_nearest(1) [OF assms this] show ?thesis
    by (simp add: decimal_def)
qed

text \<open>
  A numeral beyond the range of \<open>float32\<close> is an error of \<open>ParseFloat\<close>, which
  \<open>parseFileSize\<close> returns with the count \<open>- 1\<close>.
\<close>

lemma parseFileSize_decimal_overflow:
  assumes "list_all is_digit ip" and "list_all is_digit fp" and "ip @ fp \<noteq> []"
    and "round_to_format float32 (dec_val (ip @ fp)) (10 ^ length fp) = None"
  shows "parseFileSize impl (ip @ ''.'' @ fp @ [c]) =
           (- 1, Some (NumError ''ParseFloat'' (ip @ ''.'' @ fp) ErrRange))"
  using assms
  by (simp add: parseFileSize_def butlast_append ParseFloat_decimal rangeError_def)

text \<open>
  Claim C3, as stated, fails. The three sizes and the three errors are right (they are
  part of the amended claim below), but the scaled value of an input with a fractional
  decimal part is not always the truncated product of the decimal and the unit: \<open>0.1G\<close>
  is \<open>0.1 \<sqdot> 2\<^sup>3\<^sup>0 = 107374182.4\<close>, which truncates to 107374182, and \<open>parseFileSize\<close>
  returns 107374184, a count above the scaled decimal.
\<close>

theorem C3_counterexample:
  "decimal ''0'' ''1'' = 1 / 10 \<and>
   unit_of CHR ''G'' = Some 1073741824 \<and>
   trunc (decimal ''0'' ''1'' * of_int 1073741824) = 107374182 \<and>
   parseFileSize impl_amd64 ''0.1G'' = (107374184, None) \<and>
   fst (parseFileSize impl_amd64 ''0.1G'') \<noteq> trunc (decimal ''0'' ''1'' * of_int 1073741824) \<and>
   decimal ''0'' ''1'' * of_int 1073741824 < of_int (fst (parseFileSize impl_amd64 ''0.1G''))"
proof -
  have d: "decimal ''0'' ''1'' = 1 / 10"
    by (simp add: decimal_def dec_val_def digit_val_def)
  have p: "parseFileSize impl_amd64 ''0.1G'' = (107374184, None)"
    by (simp add: size_simps ParseFloat_0_1)
  show ?thesis
    unfolding d p by (simp add: unit_of_def trunc_def floor_rat_numeral)
qed

text \<open>
  Claim C3, amended. The three sizes of the specification and the three inputs that are
  errors, and the rule for the inputs with a fractional decimal part: for the digits
  \<open>ip\<close>, a point, the digits \<open>fp\<close> and a unit letter with factor \<open>u\<close>, the source first
  rounds the decimal to single precision (\<open>ParseFloat\<close> with \<open>bitSize = 32\<close>). With \<open>v\<close>
  that \<open>float32\<close>, a number of the format within half a unit in the last place of the
  decimal, the byte count is \<open>v \<sqdot> u\<close> with its fraction discarded: the whole number \<open>n\<close>
  with \<open>0 \<le> n \<le> v \<sqdot> u < n + 1\<close> (provided that is an \<open>int64\<close>: otherwise Go leaves the
  result of the conversion to the implementation).
\<close>

theorem C3_parseFileSize_float32:
  "parseFileSize impl ''1.5G'' = (1610612736, None) \<and>
   parseFileSize impl ''500M'' = (524288000, None) \<and>
   parseFileSize impl ''10K'' = (10240, None) \<and>
   parseFileSize impl ''100'' = (- 1, Some (ErrorString ''unable to parse: 100'')) \<and>
   parseFileSize impl '''' = (- 1, Some (ErrorString ''empty string'')) \<and>
   parseFileSize impl ''3X'' = (- 1, Some (ErrorString ''unable to parse: 3X'')) \<and>
   (\<forall>ip fp c u v. list_all is_digit ip \<and> list_all is_digit fp \<and> ip @ fp \<noteq> [] \<and>
        unit_of c = Some u \<and>
        round_to_format float32 (dec_val (ip @ fp)) (10 ^ length fp) = Some v \<and>
        trunc (v * of_int u) < 2 ^ 63 \<longrightarrow>
        parseFileSize impl (ip @ ''.'' @ fp @ [c]) = (trunc (v * of_int u), None) \<and>
        representable float32 v \<and>
        \<bar>v - decimal ip fp\<bar> \<le> pow2 (ulp_exp float32 (dec_val (ip @ fp)) (10 ^ length fp)) / 2 \<and>
        0 \<le> trunc (v * of_int u) \<and> of_int (trunc (v * of_int u)) \<le> v * of_int u \<and>
        v * of_int u < of_int (trunc (v * of_int u)) + 1)"
proof (intro conjI allI impI)
  show "parseFileSize impl ''1.5G'' = (1610612736, None)"
    by (simp add: size_simps ParseFloat_1_5)
  show "parseFileSize impl ''500M'' = (524288000, None)"
    by (simp add: size_simps ParseFloat_500)
  show "parseFileSize impl ''10K'' = (10240, None)"
    by (simp add: size_simps ParseFloat_10)
  show "parseFileSize impl ''100'' = (- 1, Some (ErrorString ''unable to parse: 100''))"
    by (simp add: size_simps ParseFloat_10)
  show "parseFileSize impl '''' = (- 1, Some (ErrorString ''empty string''))"
    by (simp add: parseFileSize_def)
  show "parseFileSize impl ''3X'' = (- 1, Some (ErrorString ''unable to parse: 3X''))"
    by (simp add: size_simps ParseFloat_3)
next
  fix ip fp c u v
  assume a: "list_all is_digit ip \<and> list_all is_digit fp \<and> ip @ fp \<noteq> [] \<and>
        unit_of c = Some u \<and>
        round_to_format float32 (dec_val (ip @ fp)) (10 ^ length fp) = Some v \<and>
        trunc (v * of_int u) < 2 ^ 63"
  let ?s = "ip @ ''.'' @ fp @ [c]"
  from a have r: "round_to_format float32 (dec_val (ip @ fp)) (10 ^ length fp) = Some v"
    by simp
  from a have p: "ParseFloat (butlast ?s) 32 = (Finite v, None)"
    by (simp add: butlast_append ParseFloat_decimal)
  from a have u: "unit_of (last ?s) = Some u" by simp
  have "0 < u" using u by (auto simp: unit_of_def split: if_splits)
  with round_to_format_nonneg [OF r] have nn: "0 \<le> v * of_int u" by simp
  then have t: "trunc (v * of_int u) = \<lfloor>v * of_int u\<rfloor>" by (simp add: trunc_def)
  with nn show t0: "0 \<le> trunc (v * of_int u)" by simp
  have "parseFileSize impl ?s = (int64_of_float impl (fmul (Finite v) u), None)"
    using p u by (intro parseFileSize_unit) simp_all
  with a t0 show "parseFileSize impl ?s = (trunc (v * of_int u), None)"
    by (simp add: fmul_def int64_of_float_in_range)
  from p show "representable float32 v" by (rule ParseFloat_32_representable)
  from r show "\<bar>v - decimal ip fp\<bar> \<le> pow2 (ulp_exp float32 (dec_val (ip @ fp)) (10 ^ length fp)) / 2"
    by (rule round_decimal_nearest)
  show "of_int (trunc (v * of_int u)) \<le> v * of_int u"
    unfolding t by (rule of_int_floor_le)
  show "v * of_int u < of_int (trunc (v * of_int u)) + 1"
    unfolding t by linarith
qed

text \<open>
  The rule at \<open>0.1G\<close>: the \<open>float32\<close> nearest to \<open>0.1\<close> is \<open>13421773 / 2\<^sup>2\<^sup>7\<close>, and \<open>G\<close> times
  that is 107374184.
\<close>

theorem C3_parseFileSize_float32_witness:
  "list_all is_digit ''0'' \<and> list_all is_digit ''1'' \<and> ''0'' @ ''1'' \<noteq> [] \<and>
   unit_of CHR ''G'' = Some 1073741824 \<and>
   round_to_format float32 (dec_val (''0'' @ ''1'')) (10 ^ length ''1'') = Some (13421773 / 134217728) \<and>
   trunc (13421773 / 134217728 * of_int 1073741824) = 107374184 \<and>
   parseFileSize impl_amd64 (''0'' @ ''.'' @ ''1'' @ [CHR ''G'']) = (107374184, None)"
proof -
  have d: "list_all is_digit ''0''" "list_all is_digit ''1''" "''0'' @ ''1'' \<noteq> []"
    by (simp_all add: is_digit_def)
  have u: "unit_of CHR ''G'' = Some 1073741824"
    by (simp add: unit_of_def)
  have r: "round_to_format float32 (dec_val (''0'' @ ''1'')) (10 ^ length ''1'') = Some (13421773 / 134217728)"
    by (simp add: dec_val_def digit_val_def round_simps)
  have t: "trunc (13421773 / 134217728 * of_int 1073741824) = 107374184"
    by (simp add: trunc_def floor_rat_numeral)
  from C3_parseFileSize_float32 [of impl_amd64]
  have "\<forall>ip fp c u v. list_all is_digit ip \<and> list_all is_digit fp \<and> ip @ fp \<noteq> [] \<and>
        unit_of c = Some u \<and>
        round_to_format float32 (dec_val (ip @ fp)) (10 ^ length fp) = Some v \<and>
        trunc (v * of_int u) < 2 ^ 63 \<longrightarrow>
        parseFileSize impl_amd64 (ip @ ''.'' @ fp @ [c]) = (trunc (v * of_int u), None)"
    by blast
  from this [rule_format, of "''0''" "''1''" "CHR ''G''" 1073741824 "13421773 / 134217728"] d u r t
  have "parseFileSize impl_amd64 (''0'' @ ''.'' @ ''1'' @ [CHR ''G'']) = (107374184, None)"
    by simp
  with d u r t show ?thesis by blast
qed

text \<open>
  The same for \<open>4.7G\<close>, whose count is below the one the decimal itself would give, and
  for any parser result: when the part before the unit letter parses to the finite value
  \<open>q\<close> and the letter is a unit with factor \<open>u\<close>, the result is \<open>q \<sqdot> u\<close> with its
  fraction discarded (provided that is an \<open>int64\<close>).
\<close>

lemma parseFileSize_single_precision:
  "parseFileSize impl ''0.1G'' = (107374184, None) \<and> trunc (1 / 10 * of_int GigaByte) = 107374182 \<and>
   parseFileSize impl ''4.7G'' = (5046586368, None) \<and> trunc (47 / 10 * of_int GigaByte) = 5046586572"
proof -
  have "ParseFloat ''4.7'' 32 = (Finite (4928307 / 1048576), None)"
    by (simp add: parse_simps)
  then show ?thesis
    by (simp add: size_simps ParseFloat_0_1)
qed

lemma parseFileSize_scaled_truncated:
  assumes "s \<noteq> []" and "ParseFloat (butlast s) 32 = (Finite q, None)"
    and "unit_of (last s) = Some u"
    and "- (2 ^ 63) \<le> trunc (q * of_int u)" and "trunc (q * of_int u) < 2 ^ 63"
  shows "parseFileSize impl s = (trunc (q * of_int u), None)"
    and "\<bar>of_int (trunc (q * of_int u))\<bar> \<le> \<bar>q * of_int u\<bar>"
    and "\<bar>q * of_int u - of_int (trunc (q * of_int u))\<bar> < 1"
proof -
  from assms have "parseFileSize impl s = (int64_of_float impl (fmul (Finite q) u), None)"
    by (simp add: parseFileSize_unit)
  with assms show "parseFileSize impl s = (trunc (q * of_int u), None)"
    by (simp add: fmul_def int64_of_float_in_range)
  show "\<bar>of_int (trunc (q * of_int u))\<bar> \<le> \<bar>q * of_int u\<bar>"
    using trunc_toward_zero [of "q * of_int u"] by blast
  show "\<bar>q * of_int u - of_int (trunc (q * of_int u))\<bar> < 1"
    using trunc_toward_zero [of "q * of_int u"] by blast
qed

text \<open>
  Claim C9, as stated, fails: the part before the unit parses to the negative number
  \<open>- 1 / 2048\<close>, the unit is \<open>K\<close>, and the byte count returned is 0, which is not negative.
\<close>

theorem C9_counterexample:
  "ParseFloat (butlast ''-0.00048828125K'') 32 = (Finite (- (1 / 2048)), None) \<and>
   - (1 / 2048) < (0 :: rat) \<and>
   last ''-0.00048828125K'' = CHR ''K'' \<and>
   parseFileSize impl_amd64 ''-0.00048828125K'' = (0, None) \<and>
   \<not> fst (parseFileSize impl_amd64 ''-0.00048828125K'') < 0"
  by (simp add: size_simps ParseFloat_neg_small)

text \<open>
  Claim C9, amended. No sign is checked: when the part before the unit parses to a
  finite negative \<open>q\<close> and the unit has factor \<open>u\<close>, the call succeeds with \<open>q \<sqdot> u\<close> cut
  toward zero (provided that is an \<open>int64\<close>). The count is never positive, and it is
  negative exactly when \<open>q \<sqdot> u \<le> - 1\<close>.
\<close>

theorem C9_negative_sizes:
  assumes "s \<noteq> []" and "ParseFloat (butlast s) 32 = (Finite q, None)" and "q < 0"
    and "unit_of (last s) = Some u" and "- (2 ^ 63) \<le> trunc (q * of_int u)"
  shows "parseFileSize impl s = (trunc (q * of_int u), None) \<and>
         trunc (q * of_int u) \<le> 0 \<and>
         (trunc (q * of_int u) < 0 \<longleftrightarrow> q * of_int u \<le> - 1)"
proof -
  have "0 < u" using assms(4) by (auto simp: unit_of_def split: if_splits)
  with assms(3) have neg: "q * of_int u < 0"
    by (simp add: mult_neg_pos)
  then have t: "trunc (q * of_int u) = \<lceil>q * of_int u\<rceil>"
    by (simp add: trunc_def)
  from neg have le: "\<lceil>q * of_int u\<rceil> \<le> 0"
    by (simp add: ceiling_le_iff)
  have iff: "\<lceil>q * of_int u\<rceil> < 0 \<longleftrightarrow> q * of_int u \<le> - 1"
    by (simp add: ceiling_less_iff)
  from le t have "trunc (q * of_int u) < 2 ^ 63" by simp
  with assms have "parseFileSize impl s = (trunc (q * of_int u), None)"
    by (simp add: parseFileSize_unit fmul_def int64_of_float_in_range)
  with t le iff show ?thesis by simp
qed

theorem C9_negative_sizes_witness:
  "''-5K'' \<noteq> [] \<and> ParseFloat (butlast ''-5K'') 32 = (Finite (- 5), None) \<and> (- 5 :: rat) < 0 \<and>
   unit_of (last ''-5K'') = Some 1024 \<and> - (2 ^ 63) \<le> trunc (- 5 * of_int 1024) \<and>
   parseFileSize impl_amd64 ''-5K'' = (- 5120, None) \<and> (- 5120 :: int) < 0"
proof -
  have p: "ParseFloat (butlast ''-5K'') 32 = (Finite (- 5), None)"
    by (simp add: ParseFloat_neg_5)
  have u: "unit_of (last ''-5K'') = Some 1024"
    by (simp add: unit_of_def)
  have t: "trunc (- 5 * of_int 1024) = - 5120"
    by (simp add: trunc_def)
  have r: "- (2 ^ 63) \<le> trunc (- 5 * of_int 1024)"
    by (simp add: trunc_def)
  from C9_negative_sizes [of "''-5K''" "- 5" 1024 impl_amd64, OF _ p _ u r]
  have "parseFileSize impl_amd64 ''-5K'' = (trunc (- 5 * of_int 1024), None)"
    by simp
  with p u t r show ?thesis by simp
qed

section \<open>The registry of providers\<close>

lemma length_AddProvider:
  "length (providerList (AddProvider registry provider)) = length (providerList registry) + 1"
  by (simp add: AddProvider_def)

lemma length_NewProviderAggregator:
  "length (providerList (NewProviderAggregator providers)) = length providers"
  by (simp add: NewProviderAggregator_def)

text \<open>
  Claim C7 does not hold of the code: \<open>MaxProviders\<close> is declared and never read. A
  registry that holds \<open>MaxProviders\<close> providers accepts one more, and the constructor
  accepts any number at once.
\<close>

theorem C7_cap_not_enforced:
  "length (providerList (AddProvider (NewProviderAggregator (replicate MaxProviders p)) p))
     = MaxProviders + 1 \<and>
   length (providerList (NewProviderAggregator (replicate (MaxProviders + 1) p)))
     = MaxProviders + 1"
  by (simp add: length_AddProvider length_NewProviderAggregator)

section \<open>Properties of FormatSize\<close>

lemma show_nat_small: "n < 10 \<Longrightarrow> show_nat n = [digit_char n]"
  by (subst show_nat.simps) simp

lemma show_nat_big: "10 \<le> n \<Longrightarrow> show_nat n = show_nat (n div 10) @ [digit_char (n mod 10)]"
  by (subst show_nat.simps) simp

lemmas fmt_simps = FormatSize_def FormatSize_copy_def fmt_f2_def fmt_d_def fdiv_def
  float64_of_int_def rat_round_half_even_def digit_char_def show_nat_small show_nat_big
  GigaByte_def MegaByte_def KiloByte_def floor_rat_numeral

lemma is_digit_digit_char: "d < 10 \<Longrightarrow> is_digit (digit_char d)"
proof -
  assume "d < 10"
  then have "d \<in> {0, 1, 2, 3, 4, 5, 6, 7, 8, 9}" by auto
  then show ?thesis
    by (auto simp: is_digit_def digit_char_def)
qed

lemma show_nat_digits: "list_all is_digit (show_nat n) \<and> show_nat n \<noteq> []"
proof (induction n rule: show_nat.induct)
  case (1 n)
  show ?case
  proof (cases "n < 10")
    case True
    then show ?thesis by (simp add: show_nat_small is_digit_digit_char)
  next
    case False
    with 1 show ?thesis by (simp add: show_nat_big is_digit_digit_char)
  qed
qed

lemma is_number_whole:
  assumes "list_all is_digit ds" and "ds \<noteq> []"
  shows "is_number ds"
proof -
  from assms(1) have t: "takeWhile is_digit ds = ds"
    by (simp add: list_all_iff)
  from assms(1) have d: "dropWhile is_digit ds = []"
    by (simp add: list_all_iff)
  show ?thesis
    unfolding is_number_def Let_def t d using assms(2) by simp
qed

lemma is_number_point:
  assumes "list_all is_digit ds" and "ds \<noteq> []" and "is_digit a" and "is_digit b"
  shows "is_number (ds @ ''.'' @ [a, b])"
proof -
  have p: "\<not> is_digit CHR ''.''" by (simp add: is_digit_def)
  from assms(1) p have t: "takeWhile is_digit (ds @ ''.'' @ [a, b]) = ds"
    by (simp add: list_all_iff)
  from assms(1) p have d: "dropWhile is_digit (ds @ ''.'' @ [a, b]) = ''.'' @ [a, b]"
    by (simp add: list_all_iff)
  show ?thesis
    unfolding is_number_def Let_def t d using assms by simp
qed

lemma is_number_fmt_f2:
  assumes "0 \<le> q"
  shows "is_number (fmt_f2 (Finite q))"
proof -
  let ?r = "rat_round_half_even (\<bar>q\<bar> * 100)"
  have f: "fmt_f2 (Finite q) =
        show_nat (?r div 100) @ ''.'' @ [digit_char (?r mod 100 div 10), digit_char (?r mod 10)]"
    using assms by (simp add: fmt_f2_def Let_def)
  have a: "is_digit (digit_char (?r mod 100 div 10))"
    by (rule is_digit_digit_char) simp
  have b: "is_digit (digit_char (?r mod 10))"
    by (rule is_digit_digit_char) simp
  from show_nat_digits [of "?r div 100"]
  have c: "list_all is_digit (show_nat (?r div 100))" and d: "show_nat (?r div 100) \<noteq> []"
    by simp_all
  from c d a b show ?thesis
    unfolding f by (rule is_number_point)
qed

lemma is_number_fmt_d:
  assumes "0 \<le> n"
  shows "is_number (fmt_d n)"
  using assms show_nat_digits [of "nat n"] by (simp add: fmt_d_def is_number_whole)

text \<open>The conversion of a non-negative \<open>int64\<close> to \<open>float64\<close> is finite and not negative.\<close>

lemma float64_of_int_finite:
  assumes "0 \<le> n" and "n < 2 ^ 63"
  shows "\<exists>q. float64_of_int n = Finite q \<and> 0 \<le> q"
proof (cases "n = 0")
  case True
  then show ?thesis by (simp add: float64_of_int_def round_to_format_def)
next
  case False
  define N where "N = nat \<bar>n\<bar>"
  with assms False have Npos: "0 < N" and Nlt: "N < 2 ^ 63"
    by (auto simp: nat_less_iff)
  from bitlen_bounds [OF Npos] have lo: "2 ^ (bitlen N - 1) \<le> N" and hi: "N < 2 ^ bitlen N"
    by auto
  have bpos: "0 < bitlen N" using Npos by (simp add: bitlen_pos)
  have b63: "bitlen N \<le> 63"
  proof (rule ccontr)
    assume "\<not> bitlen N \<le> 63"
    then have "63 \<le> bitlen N - 1" by simp
    then have "(2::nat) ^ 63 \<le> 2 ^ (bitlen N - 1)" by (rule power_increasing) simp
    with lo Nlt show False by simp
  qed
  have e: "ilog2 N 1 = int (bitlen N) - 1"
    using lo bpos by (simp add: ilog2_def pow2_le_def bitlen_Suc0 Let_def nat_diff_distrib)
  from e have e': "ilog2 N (Suc 0) = int (bitlen N) - 1" by simp
  define u where "u = int (bitlen N) - 1 - 52"
  define m where "m = (if 0 \<le> u then round_half_even N (1 * 2 ^ nat u)
                        else round_half_even (N * 2 ^ nat (- u)) 1)"
  have r: "round_to_format float64 N 1 =
           (if pow2 1024 \<le> of_nat m * pow2 u then None else Some (of_nat m * pow2 u))"
    using Npos bpos by (simp add: round_to_format_def e' float64_def Let_def u_def m_def)
  have bound: "of_nat m * pow2 u \<le> (2 :: rat) ^ 63"
  proof (cases "0 \<le> u")
    case True
    then have m1: "m \<le> N div 2 ^ nat u + 1"
      using round_half_even_le [of N "2 ^ nat u"] by (simp add: m_def)
    have "bitlen N = 53 + nat u" using True by (simp add: u_def)
    with hi have "N < 2 ^ 53 * 2 ^ nat u" by (simp add: power_add)
    then have "N div 2 ^ nat u < 2 ^ 53"
      by (simp add: less_mult_imp_div_less)
    with m1 have "m \<le> 2 ^ 53" by simp
    then have "m * 2 ^ nat u \<le> 2 ^ 53 * 2 ^ nat u" by simp
    also have "\<dots> = 2 ^ (53 + nat u)" by (simp add: power_add)
    also have "\<dots> \<le> 2 ^ 63"
      using b63 \<open>bitlen N = 53 + nat u\<close> by (intro power_increasing) simp_all
    finally have "m * 2 ^ nat u \<le> 2 ^ 63" .
    then have "(of_nat (m * 2 ^ nat u) :: rat) \<le> of_nat (2 ^ 63)"
      by (simp only: of_nat_le_iff)
    then show ?thesis using True by (simp add: pow2_def)
  next
    case False
    then have "m = N * 2 ^ nat (- u)"
      by (simp add: m_def round_half_even_by_1)
    then have "of_nat m * pow2 u = (of_nat N :: rat)"
      using False by (simp add: pow2_def)
    moreover have "(of_nat N :: rat) \<le> of_nat (2 ^ 63)"
      using Nlt by (simp only: of_nat_le_iff)
    ultimately show ?thesis by simp
  qed
  have "(2 :: rat) ^ 63 < pow2 1024" by (simp add: pow2_def)
  with bound have "\<not> pow2 1024 \<le> of_nat m * pow2 u" by simp
  with r have "round_to_format float64 N 1 = Some (of_nat m * pow2 u)" by simp
  moreover have "0 \<le> of_nat m * pow2 u" by (simp add: pow2_def)
  ultimately show ?thesis
    using assms(1) by (simp add: float64_of_int_def N_def)
qed

lemma ilog2_by_1:
  assumes "0 < N"
  shows "ilog2 N (Suc 0) = int (bitlen N) - 1"
proof -
  from bitlen_bounds [OF assms] have lo: "2 ^ (bitlen N - 1) \<le> N" by simp
  have bpos: "0 < bitlen N" using assms by (simp add: bitlen_pos)
  with lo show ?thesis
    by (simp add: ilog2_def pow2_le_def bitlen_Suc0 Let_def nat_diff_distrib)
qed

text \<open>
  The quotient of \<open>float64(size)\<close> by a unit factor is a number of \<open>float64\<close>: the
  \<open>float64\<close> division in \<open>FormatSize\<close> does not round.
\<close>

lemma fdiv_exact:
  assumes "0 \<le> n" and "n < 2 ^ 63" and "unit_of c = Some u"
  shows "\<exists>q. float64_of_int n = Finite q \<and> fdiv (float64_of_int n) u = Finite (q / of_int u) \<and>
           representable float64 (q / of_int u)"
proof -
  from float64_of_int_finite [OF assms(1,2)] obtain q where
    q: "float64_of_int n = Finite q" "0 \<le> q" by blast
  from assms(3) obtain k :: int where k: "0 \<le> k" "k \<le> 30" and u: "(of_int u :: rat) = pow2 k"
  proof -
    from assms(3) consider "u = 1024" | "u = 1024 * 1024" | "u = 1024 * 1024 * 1024"
      by (auto simp: unit_of_def split: if_splits)
    then show ?thesis
    proof cases
      case 1
      then have "(of_int u :: rat) = pow2 10" by (simp add: pow2_def)
      then show ?thesis using that [of 10] by simp
    next
      case 2
      then have "(of_int u :: rat) = pow2 20" by (simp add: pow2_def)
      then show ?thesis using that [of 20] by simp
    next
      case 3
      then have "(of_int u :: rat) = pow2 30" by (simp add: pow2_def)
      then show ?thesis using that [of 30] by simp
    qed
  qed
  have "representable float64 (q / of_int u)"
  proof (cases "n = 0")
    case True
    with q(1) have "q = 0" by (simp add: float64_of_int_def round_to_format_def)
    then have z: "q / of_int u = of_nat 0 * pow2 (- 1074)" by simp
    have "representable float64 (of_nat 0 * pow2 (- 1074))"
      by (rule representableI) (simp_all add: float64_def)
    then show ?thesis by (simp only: z)
  next
    case False
    define N where "N = nat \<bar>n\<bar>"
    with assms(1,2) False have Npos: "0 < N" and Nlt: "N < 2 ^ 63"
      by (auto simp: nat_less_iff)
    from q(1) assms(1) have r: "round_to_format float64 N (Suc 0) = Some q"
      by (simp add: float64_of_int_def N_def split: option.splits)
    from bitlen_bounds [OF Npos] have lo: "2 ^ (bitlen N - 1) \<le> N" by simp
    have bpos: "0 < bitlen N" using Npos by (simp add: bitlen_pos)
    have b63: "bitlen N \<le> 63"
    proof (rule ccontr)
      assume "\<not> bitlen N \<le> 63"
      then have "63 \<le> bitlen N - 1" by simp
      then have "(2::nat) ^ 63 \<le> 2 ^ (bitlen N - 1)" by (rule power_increasing) simp
      with lo Nlt show False by simp
    qed
    define w where "w = ulp_exp float64 N (Suc 0)"
    have w: "- 52 \<le> w" "w \<le> 10"
      using bpos b63 by (simp_all add: w_def ulp_exp_def ilog2_by_1 [OF Npos] float64_def)
    from round_to_format_shape [OF r Npos] obtain m where
      v: "q = of_nat m * pow2 w" and up: "m \<le> 2 ^ precision float64"
      unfolding w_def by auto
    have "pow2 w = pow2 (w + - k) * pow2 k"
      by (simp add: pow2_add [symmetric])
    then have "q / of_int u = of_nat m * pow2 (w + - k) * pow2 k / pow2 k"
      by (simp add: v u)
    then have "q / of_int u = of_nat m * pow2 (w + - k)"
      using pow2_pos [of k] by simp
    moreover have "representable float64 (of_nat m * pow2 (w + - k))"
      using up by (rule representableI) (use w k in \<open>simp_all add: float64_def\<close>)
    ultimately show ?thesis by simp
  qed
  with q(1) show ?thesis by (simp add: fdiv_def)
qed

lemma FormatSize_copy_eq: "FormatSize_copy sz = FormatSize sz"
  by (simp add: FormatSize_def FormatSize_copy_def Let_def)

lemma FormatSize_number:
  assumes "0 \<le> sz" and "sz < 2 ^ 63"
  shows "\<exists>num. is_number num \<and> FormatSize sz = num @ unit_suffix sz"
proof -
  from float64_of_int_finite [OF assms] obtain q where
    q: "float64_of_int sz = Finite q" "0 \<le> q" by blast
  have d: "is_number (fmt_f2 (fdiv (float64_of_int sz) c))" if "0 < c" for c
  proof -
    have "0 \<le> q / of_int c" using q(2) that by simp
    then show ?thesis by (simp add: q(1) fdiv_def is_number_fmt_f2)
  qed
  consider "sz \<ge> GigaByte" | "sz < GigaByte" "sz \<ge> MegaByte"
    | "sz < MegaByte" "sz \<ge> KiloByte" | "sz < KiloByte"
    by linarith
  then show ?thesis
  proof cases
    case 1
    then have "FormatSize sz = fmt_f2 (fdiv (float64_of_int sz) GigaByte) @ unit_suffix sz"
      using assms(1)
      by (simp add: FormatSize_def unit_suffix_def GigaByte_def MegaByte_def KiloByte_def)
    moreover have "is_number (fmt_f2 (fdiv (float64_of_int sz) GigaByte))"
      by (rule d) (simp add: GigaByte_def MegaByte_def KiloByte_def)
    ultimately show ?thesis by blast
  next
    case 2
    then have "FormatSize sz = fmt_f2 (fdiv (float64_of_int sz) MegaByte) @ unit_suffix sz"
      using assms(1)
      by (simp add: FormatSize_def unit_suffix_def GigaByte_def MegaByte_def KiloByte_def)
    moreover have "is_number (fmt_f2 (fdiv (float64_of_int sz) MegaByte))"
      by (rule d) (simp add: MegaByte_def KiloByte_def)
    ultimately show ?thesis by blast
  next
    case 3
    then have "FormatSize sz = fmt_f2 (fdiv (float64_of_int sz) KiloByte) @ unit_suffix sz"
      using assms(1)
      by (simp add: FormatSize_def unit_suffix_def GigaByte_def MegaByte_def KiloByte_def)
    moreover have "is_number (fmt_f2 (fdiv (float64_of_int sz) KiloByte))"
      by (rule d) (simp add: KiloByte_def)
    ultimately show ?thesis by blast
  next
    case 4
    then have "FormatSize sz = fmt_d sz @ unit_suffix sz"
      using assms(1)
      by (simp add: FormatSize_def unit_suffix_def GigaByte_def MegaByte_def KiloByte_def)
    moreover have "is_number (fmt_d sz)"
      using assms(1) by (rule is_number_fmt_d)
    ultimately show ?thesis by blast
  qed
qed

text \<open>
  Claim C10. \<open>FormatSize\<close> (in both copies) maps every negative size to \<open>--\<close>, the
  \<open>- 1\<close> of a failed \<open>parseFileSize\<close> among them, and every other \<open>int64\<close> to a decimal
  number followed by the one unit the thresholds select.
\<close>

theorem C10_FormatSize:
  "(sz < 0 \<longrightarrow> FormatSize sz = ''--'') \<and>
   FormatSize (fst (parseFileSize impl ''3X'')) = ''--'' \<and>
   (0 \<le> sz \<and> sz < 2 ^ 63 \<longrightarrow>
      (\<exists>num. is_number num \<and> FormatSize sz = num @ unit_suffix sz)) \<and>
   FormatSize_copy sz = FormatSize sz"
proof (intro conjI impI)
  show "FormatSize sz = ''--''" if "sz < 0"
    using that by (simp add: FormatSize_def)
  show "FormatSize (fst (parseFileSize impl ''3X'')) = ''--''"
    by (simp add: size_simps ParseFloat_3 FormatSize_def)
  show "\<exists>num. is_number num \<and> FormatSize sz = num @ unit_suffix sz"
    if "0 \<le> sz \<and> sz < 2 ^ 63"
    using that by (simp add: FormatSize_number)
  show "FormatSize_copy sz = FormatSize sz"
    by (rule FormatSize_copy_eq)
qed

lemma FormatSize_1_5_GB: "FormatSize 1610612736 = ''1.50GB''"
  by (simp add: fmt_simps round_simps)

theorem C10_FormatSize_witness:
  "(- 1 :: int) < 0 \<and> FormatSize (- 1) = ''--'' \<and>
   (0 :: int) \<le> 1610612736 \<and> (1610612736 :: int) < 2 ^ 63 \<and>
   is_number ''1.50'' \<and> FormatSize 1610612736 = ''1.50'' @ unit_suffix 1610612736"
proof -
  from C10_FormatSize [of "- 1"] have a: "FormatSize (- 1) = ''--''" by simp
  from C10_FormatSize [of 1610612736] obtain num where
    n: "is_number num" "FormatSize 1610612736 = num @ unit_suffix 1610612736"
    by auto
  have u: "unit_suffix 1610612736 = ''GB''" by (simp add: unit_suffix_def)
  from n(2) have "num = ''1.50''"
    by (simp only: FormatSize_1_5_GB u) simp
  with n a show ?thesis by simp
qed

end
